theory Spec2Isabelle
  imports Complex_Main
begin

section \<open>The graph model\<close>

text \<open>
  The program (\<^verbatim>\<open>pbl.py\<close>) keeps its network in a \<^verbatim>\<open>networkx.Graph\<close>.  Such a graph
  is two insertion-ordered dictionaries over the same keys: the adjacency dictionary
  (node to neighbours) and the node-attribute dictionary (here only the attribute
  \<^verbatim>\<open>population\<close>).  The adjacency dictionary is an association list, so that the
  iteration order of \<^verbatim>\<open>G.nodes()\<close> is the order of insertion; the attribute is a map.
  Node identifiers are Python integers.
\<close>

datatype error = NodeNotFound | KeyError | ZeroDivisionError

record graph =
  adj :: "(int \<times> int list) list"
  population :: "int \<rightharpoonup> int"

definition empty_graph :: graph where
  "empty_graph = \<lparr>adj = [], population = Map.empty\<rparr>"

text \<open>\<^verbatim>\<open>G.nodes()\<close>: the nodes in insertion order.\<close>

definition nodes :: "graph \<Rightarrow> int list" where
  "nodes G = map fst (adj G)"

text \<open>\<^verbatim>\<open>G.adj[v]\<close>: the neighbours of a node (none for a key that is absent).\<close>

definition neighbors :: "graph \<Rightarrow> int \<Rightarrow> int list" where
  "neighbors G v = (case map_of (adj G) v of Some ws \<Rightarrow> ws | None \<Rightarrow> [])"

text \<open>
  \<^verbatim>\<open>G.add_node(n, population=p)\<close>: a new node gets an empty neighbour dictionary at the
  end of the adjacency dictionary; for an existing node only the attribute is updated.
\<close>

definition add_node :: "graph \<Rightarrow> int \<Rightarrow> int \<Rightarrow> graph" where
  "add_node G n p =
     \<lparr>adj = (if n \<in> set (nodes G) then adj G else adj G @ [(n, [])]),
      population = (population G)(n \<mapsto> p)\<rparr>"

text \<open>
  \<^verbatim>\<open>G.add_edge(u, v)\<close>: both endpoints are added as nodes (without attributes) when
  they are missing, then each becomes a neighbour of the other; an edge that is
  already there changes nothing.
\<close>

definition ensure_node :: "int \<Rightarrow> (int \<times> int list) list \<Rightarrow> (int \<times> int list) list" where
  "ensure_node u al = (if u \<in> set (map fst al) then al else al @ [(u, [])])"

definition add_nbr :: "int \<Rightarrow> int \<Rightarrow> (int \<times> int list) list \<Rightarrow> (int \<times> int list) list" where
  "add_nbr u v al =
     map (\<lambda>(k, ws). if k = u \<and> v \<notin> set ws then (k, ws @ [v]) else (k, ws)) al"

definition add_edge :: "graph \<Rightarrow> int \<Rightarrow> int \<Rightarrow> graph" where
  "add_edge G u v =
     G\<lparr>adj := add_nbr v u (add_nbr u v (ensure_node v (ensure_node u (adj G))))\<rparr>"

subsection \<open>Shortest path lengths by breadth-first search\<close>

text \<open>
  \<^verbatim>\<open>nx.single_source_shortest_path_length(G, source)\<close> expands the graph level by
  level from the source and yields every reached node with its level.  A neighbour
  enters the next level when it has not been seen before.  Every node that is ever
  seen is a key or a neighbour entry of the adjacency dictionary, which is what makes
  the search stop.  The order of the nodes inside a level plays no role for the
  program, which only collects the nodes into a set.
\<close>

definition universe :: "graph \<Rightarrow> int set" where
  "universe G = set (nodes G) \<union> (\<Union>ws \<in> snd ` set (adj G). set ws)"

lemma neighbors_universe: "set (neighbors G v) \<subseteq> universe G"
proof (cases "map_of (adj G) v")
  case None
  then show ?thesis by (simp add: neighbors_def)
next
  case (Some ws)
  then have "(v, ws) \<in> set (adj G)" by (rule map_of_SomeD)
  then have "ws \<in> snd ` set (adj G)" by force
  with Some show ?thesis by (auto simp: neighbors_def universe_def)
qed

definition next_level :: "graph \<Rightarrow> int list \<Rightarrow> int set \<Rightarrow> int list" where
  "next_level G thislevel seen =
     remdups (filter (\<lambda>w. w \<notin> seen) (concat (map (neighbors G) thislevel)))"

lemma next_level_fresh: "set (next_level G thislevel seen) \<subseteq> universe G - seen"
  using neighbors_universe by (auto simp: next_level_def)

function bfs :: "graph \<Rightarrow> int list \<Rightarrow> int set \<Rightarrow> int \<Rightarrow> (int \<times> int) list" where
  "bfs G thislevel seen level =
     (if thislevel = [] then []
      else map (\<lambda>v. (v, level)) thislevel @
           bfs G (next_level G thislevel seen) (seen \<union> set (next_level G thislevel seen))
             (level + 1))"
  by pat_completeness auto

lemma finite_universe: "finite (universe G)"
  by (simp add: universe_def)

termination bfs
proof (relation "measure (\<lambda>(G, thislevel, seen, level).
          card (universe G - seen) + (if thislevel = [] then 0 else 1))")
  show "wf (measure (\<lambda>(G, thislevel, seen, level).
          card (universe G - seen) + (if thislevel = [] then 0 else 1)))"
    by simp
next
  fix G :: graph and thislevel :: "int list" and seen :: "int set" and level :: int
  assume ne: "thislevel \<noteq> []"
  let ?nl = "next_level G thislevel seen"
  show "((G, ?nl, seen \<union> set ?nl, level + 1), (G, thislevel, seen, level))
          \<in> measure (\<lambda>(G, thislevel, seen, level).
               card (universe G - seen) + (if thislevel = [] then 0 else 1))"
  proof (cases "?nl = []")
    case True
    with ne show ?thesis by simp
  next
    case False
    then obtain w where w: "w \<in> set ?nl" by (cases ?nl) auto
    with next_level_fresh have "w \<in> universe G - seen" by blast
    moreover have "w \<notin> universe G - (seen \<union> set ?nl)" using w by simp
    ultimately have "universe G - (seen \<union> set ?nl) \<subset> universe G - seen" by blast
    then have "card (universe G - (seen \<union> set ?nl)) < card (universe G - seen)"
      using finite_universe by (intro psubset_card_mono) simp_all
    with ne False show ?thesis by simp
  qed
qed

declare bfs.simps [simp del]

text \<open>The library call raises \<^verbatim>\<open>NodeNotFound\<close> for a source that is not in the graph.\<close>

definition single_source_shortest_path_length :: "graph \<Rightarrow> int \<Rightarrow> error + (int \<times> int) list" where
  "single_source_shortest_path_length G source =
     (if source \<in> set (nodes G) then Inr (bfs G [source] {source} 0) else Inl NodeNotFound)"

section \<open>The helper functions of the program\<close>

text \<open>\<^verbatim>\<open>covered_nodes(G, center, X)\<close>: the nodes whose distance from the center is at most X.\<close>

definition covered_nodes :: "graph \<Rightarrow> int \<Rightarrow> int \<Rightarrow> error + int set" where
  "covered_nodes G center X =
     (case single_source_shortest_path_length G center of
        Inl e \<Rightarrow> Inl e
      | Inr lengths \<Rightarrow> Inr (set (map fst (filter (\<lambda>(node, dist). dist \<le> X) lengths))))"

text \<open>
  The inner \<^verbatim>\<open>for\<close> loop of \<^verbatim>\<open>greedy_center_placement\<close>: a scan of the nodes that keeps
  the best node seen so far and its cover.  \<^verbatim>\<open>best_node\<close> starts as \<^verbatim>\<open>None\<close>.
\<close>

fun best_scan :: "graph \<Rightarrow> int \<Rightarrow> int set \<Rightarrow> int list \<Rightarrow> int option \<times> int set
      \<Rightarrow> error + (int option \<times> int set)" where
  "best_scan G X uncovered [] best = Inr best"
| "best_scan G X uncovered (node # rest) (best_node, best_cover) =
     (case covered_nodes G node X of
        Inl e \<Rightarrow> Inl e
      | Inr reach \<Rightarrow>
          (let cover = reach \<inter> uncovered
           in if card cover > card best_cover
              then best_scan G X uncovered rest (Some node, cover)
              else best_scan G X uncovered rest (best_node, best_cover)))"

text \<open>
  The body of the \<^verbatim>\<open>while\<close> loop, one round: the scan of all nodes, then the best node
  is appended to the centers and its cover is removed from the uncovered set.
\<close>

definition greedy_round ::
  "graph \<Rightarrow> int \<Rightarrow> int set \<Rightarrow> int option list \<Rightarrow> error + (int set \<times> int option list)" where
  "greedy_round G X uncovered centers =
     (case best_scan G X uncovered (nodes G) (None, {}) of
        Inl e \<Rightarrow> Inl e
      | Inr (best_node, best_cover) \<Rightarrow> Inr (uncovered - best_cover, centers @ [best_node]))"

text \<open>
  The \<^verbatim>\<open>while uncovered:\<close> loop.  Nothing in the source bounds it, so the model is a
  partial function: \<open>None\<close> is a loop that never ends, \<open>Some (Inl e)\<close> a raised
  exception and \<open>Some (Inr centers)\<close> the returned list.
\<close>

partial_function (option) greedy_loop ::
  "graph \<Rightarrow> int \<Rightarrow> int set \<Rightarrow> int option list \<Rightarrow> (error + int option list) option" where
  "greedy_loop G X uncovered centers =
     (if uncovered = {} then Some (Inr centers)
      else case greedy_round G X uncovered centers of
             Inl e \<Rightarrow> Some (Inl e)
           | Inr (uncovered', centers') \<Rightarrow> greedy_loop G X uncovered' centers')"

declare greedy_loop.simps [code]

definition greedy_center_placement :: "graph \<Rightarrow> int \<Rightarrow> (error + int option list) option" where
  "greedy_center_placement G X = greedy_loop G X (set (nodes G)) []"

section \<open>Coverage groups and statistics\<close>

text \<open>
  The loop over the chosen centers after placement.  A center that is \<^verbatim>\<open>None\<close> is not
  a node, so \<^verbatim>\<open>covered_nodes\<close> raises \<^verbatim>\<open>NodeNotFound\<close> for it.  The dictionary entry of a
  center is the ascending list of the nodes that \<^verbatim>\<open>covered_nodes\<close> returns.
\<close>

fun coverage_groups :: "graph \<Rightarrow> int \<Rightarrow> int option list \<Rightarrow> (int \<rightharpoonup> int list) \<times> int set
      \<Rightarrow> error + ((int \<rightharpoonup> int list) \<times> int set)" where
  "coverage_groups G X [] acc = Inr acc"
| "coverage_groups G X (None # cs) acc = Inl NodeNotFound"
| "coverage_groups G X (Some c # cs) (center_coverage_map, all_covered) =
     (case covered_nodes G c X of
        Inl e \<Rightarrow> Inl e
      | Inr nodes_covered_by_c \<Rightarrow>
          coverage_groups G X cs
            (center_coverage_map(c \<mapsto> sorted_list_of_set nodes_covered_by_c),
             all_covered \<union> nodes_covered_by_c))"

text \<open>
  \<^verbatim>\<open>sum(G.nodes[n]['population'] for n in all_covered)\<close>: the lookup raises
  \<^verbatim>\<open>KeyError\<close> for a node without the attribute.
\<close>

definition covered_population :: "graph \<Rightarrow> int set \<Rightarrow> error + int" where
  "covered_population G all_covered =
     (if \<forall>n \<in> all_covered. population G n \<noteq> None
      then Inr (\<Sum>n \<in> all_covered. the (population G n))
      else Inl KeyError)"

text \<open>
  \<^verbatim>\<open>(covered_population / total_population) * 100\<close>: the quotient of two integers,
  which raises \<^verbatim>\<open>ZeroDivisionError\<close> for a zero divisor.  The quotient is taken in
  the rationals here; the program's floating-point value is its rounding.
\<close>

definition coverage_percent :: "int \<Rightarrow> int \<Rightarrow> error + rat" where
  "coverage_percent covered total_pop =
     (if total_pop = 0 then Inl ZeroDivisionError
      else Inr (of_int covered / of_int total_pop * 100))"

section \<open>The computation behind the button\<close>

text \<open>The chain layout: nodes 1 to \<^verbatim>\<open>num_locations\<close>, node i adjacent to node i + 1.\<close>

definition build_graph :: "int \<Rightarrow> int list \<Rightarrow> graph" where
  "build_graph num_locations population_list =
     fold (\<lambda>i G. add_edge G i (i + 1)) [1..num_locations - 1]
       (fold (\<lambda>i G. add_node G i (population_list ! nat (i - 1))) [1..num_locations]
          empty_graph)"

record statistics =
  centers_placed :: "int option list"
  center_coverage_map :: "int \<rightharpoonup> int list"
  uncovered_nodes :: "int set"
  total_population :: int
  population_covered :: int
  percent :: rat

text \<open>
  What the page shows in the end: the summary, the message for a wrong number of
  population values, or the message of the handler that catches every exception.
\<close>

datatype outcome = Summary statistics | Wrong_count | Invalid_input error

definition summarize :: "graph \<Rightarrow> int list \<Rightarrow> int \<Rightarrow> int option list \<Rightarrow> outcome" where
  "summarize G population_list X centers =
     (case coverage_groups G X centers (Map.empty, {}) of
        Inl e \<Rightarrow> Invalid_input e
      | Inr (coverage_map, all_covered) \<Rightarrow>
          (let uncovered = set (nodes G) - all_covered;
               total_pop = sum_list population_list
           in case covered_population G all_covered of
                Inl e \<Rightarrow> Invalid_input e
              | Inr covered \<Rightarrow>
                  (case coverage_percent covered total_pop of
                     Inl e \<Rightarrow> Invalid_input e
                   | Inr p \<Rightarrow>
                       Summary \<lparr>centers_placed = centers, center_coverage_map = coverage_map,
                         uncovered_nodes = uncovered, total_population = total_pop,
                         population_covered = covered, percent = p\<rparr>)))"

text \<open>
  The body of \<^verbatim>\<open>if st.sidebar.button("Compute Centers")\<close>, from the parsed population
  list to the statistics; the drawing of the page that follows is not modelled.
  \<open>None\<close> is a run that never ends.
\<close>

definition compute_centers :: "int \<Rightarrow> int list \<Rightarrow> int \<Rightarrow> outcome option" where
  "compute_centers num_locations population_list X =
     (if int (length population_list) \<noteq> num_locations then Some Wrong_count
      else case greedy_center_placement (build_graph num_locations population_list) X of
             None \<Rightarrow> None
           | Some (Inl e) \<Rightarrow> Some (Invalid_input e)
           | Some (Inr centers) \<Rightarrow>
               Some (summarize (build_graph num_locations population_list) population_list X
                       centers))"

section \<open>Reach and selection\<close>

text \<open>
  Two names for the proofs: the set that \<^verbatim>\<open>covered_nodes\<close> returns for a node of the
  graph, and the gain of a node, the number of uncovered nodes in that set.
\<close>

definition reach :: "graph \<Rightarrow> int \<Rightarrow> int \<Rightarrow> int set" where
  "reach G v X = set (map fst (filter (\<lambda>(node, dist). dist \<le> X) (bfs G [v] {v} 0)))"

definition gain :: "graph \<Rightarrow> int \<Rightarrow> int set \<Rightarrow> int \<Rightarrow> nat" where
  "gain G X uncovered v = card (reach G v X \<inter> uncovered)"

lemma covered_nodes_node: "v \<in> set (nodes G) \<Longrightarrow> covered_nodes G v X = Inr (reach G v X)"
  by (simp add: covered_nodes_def single_source_shortest_path_length_def reach_def)

lemma covered_nodes_not_node: "v \<notin> set (nodes G) \<Longrightarrow> covered_nodes G v X = Inl NodeNotFound"
  by (simp add: covered_nodes_def single_source_shortest_path_length_def)

lemma finite_reach: "finite (reach G v X)"
  by (simp add: reach_def)

lemma reach_self: "0 \<le> X \<Longrightarrow> v \<in> reach G v X"
  by (subst reach_def, subst bfs.simps) simp

lemma bfs_level_le: "(u, d) \<in> set (bfs G thislevel seen level) \<Longrightarrow> level \<le> d"
proof (induction G thislevel seen level rule: bfs.induct)
  case (1 G thislevel seen level)
  show ?case
  proof (cases "thislevel = []")
    case True
    with "1.prems" show ?thesis by (simp add: bfs.simps)
  next
    case False
    from "1.prems" False
    have "(u, d) \<in> set (map (\<lambda>v. (v, level)) thislevel) \<or>
          (u, d) \<in> set (bfs G (next_level G thislevel seen)
                          (seen \<union> set (next_level G thislevel seen)) (level + 1))"
      by (subst (asm) bfs.simps) simp
    then show ?thesis
    proof
      assume "(u, d) \<in> set (map (\<lambda>v. (v, level)) thislevel)"
      then show ?thesis by auto
    next
      assume "(u, d) \<in> set (bfs G (next_level G thislevel seen)
                          (seen \<union> set (next_level G thislevel seen)) (level + 1))"
      with "1.IH" False have "level + 1 \<le> d" by blast
      then show ?thesis by simp
    qed
  qed
qed

lemma reach_negative: "X < 0 \<Longrightarrow> reach G v X = {}"
proof -
  assume neg: "X < 0"
  have "\<And>u d. (u, d) \<in> set (bfs G [v] {v} 0) \<Longrightarrow> \<not> d \<le> X"
    using bfs_level_le neg by fastforce
  then have "filter (\<lambda>(node, dist). dist \<le> X) (bfs G [v] {v} 0) = []"
    by (auto simp: filter_empty_conv)
  then show ?thesis by (simp add: reach_def)
qed

lemma reach_mono: "X \<le> Y \<Longrightarrow> reach G v X \<subseteq> reach G v Y"
  by (auto simp: reach_def)

lemma best_scan_cases:
  assumes "set ns \<subseteq> set (nodes G)"
  shows "(best_scan G X U ns (b, c) = Inr (b, c) \<and> (\<forall>j < length ns. gain G X U (ns ! j) \<le> card c)) \<or>
         (\<exists>i < length ns.
             best_scan G X U ns (b, c) = Inr (Some (ns ! i), reach G (ns ! i) X \<inter> U) \<and>
             card c < gain G X U (ns ! i) \<and>
             (\<forall>j < i. gain G X U (ns ! j) < gain G X U (ns ! i)) \<and>
             (\<forall>j < length ns. gain G X U (ns ! j) \<le> gain G X U (ns ! i)))"
  using assms
proof (induction ns arbitrary: b c)
  case Nil
  then show ?case by simp
next
  case (Cons x ns)
  then have x: "covered_nodes G x X = Inr (reach G x X)" and sub: "set ns \<subseteq> set (nodes G)"
    by (simp_all add: covered_nodes_node)
  let ?cover = "reach G x X \<inter> U"
  show ?case
  proof (cases "card c < card ?cover")
    case True
    then have step: "best_scan G X U (x # ns) (b, c) = best_scan G X U ns (Some x, ?cover)"
      by (simp add: x)
    from Cons.IH [OF sub, of "Some x" ?cover] show ?thesis
    proof
      assume keep: "best_scan G X U ns (Some x, ?cover) = Inr (Some x, ?cover) \<and>
                    (\<forall>j < length ns. gain G X U (ns ! j) \<le> card ?cover)"
      have "\<forall>j < length (x # ns). gain G X U ((x # ns) ! j) \<le> gain G X U ((x # ns) ! 0)"
      proof (intro allI impI)
        fix j assume "j < length (x # ns)"
        then show "gain G X U ((x # ns) ! j) \<le> gain G X U ((x # ns) ! 0)"
          using keep by (cases j) (simp_all add: gain_def)
      qed
      with keep step True have "0 < length (x # ns) \<and>
             best_scan G X U (x # ns) (b, c) = Inr (Some ((x # ns) ! 0), reach G ((x # ns) ! 0) X \<inter> U) \<and>
             card c < gain G X U ((x # ns) ! 0) \<and>
             (\<forall>j < 0. gain G X U ((x # ns) ! j) < gain G X U ((x # ns) ! 0)) \<and>
             (\<forall>j < length (x # ns). gain G X U ((x # ns) ! j) \<le> gain G X U ((x # ns) ! 0))"
        by (simp add: gain_def)
      then show ?thesis by blast
    next
      assume "\<exists>i < length ns.
             best_scan G X U ns (Some x, ?cover) = Inr (Some (ns ! i), reach G (ns ! i) X \<inter> U) \<and>
             card ?cover < gain G X U (ns ! i) \<and>
             (\<forall>j < i. gain G X U (ns ! j) < gain G X U (ns ! i)) \<and>
             (\<forall>j < length ns. gain G X U (ns ! j) \<le> gain G X U (ns ! i))"
      then obtain i where i: "i < length ns"
        and res: "best_scan G X U ns (Some x, ?cover) = Inr (Some (ns ! i), reach G (ns ! i) X \<inter> U)"
        and gt: "card ?cover < gain G X U (ns ! i)"
        and before: "\<forall>j < i. gain G X U (ns ! j) < gain G X U (ns ! i)"
        and all: "\<forall>j < length ns. gain G X U (ns ! j) \<le> gain G X U (ns ! i)"
        by blast
      have b': "\<forall>j < Suc i. gain G X U ((x # ns) ! j) < gain G X U ((x # ns) ! Suc i)"
      proof (intro allI impI)
        fix j assume "j < Suc i"
        then show "gain G X U ((x # ns) ! j) < gain G X U ((x # ns) ! Suc i)"
          using before gt by (cases j) (simp_all add: gain_def)
      qed
      have a': "\<forall>j < length (x # ns). gain G X U ((x # ns) ! j) \<le> gain G X U ((x # ns) ! Suc i)"
      proof (intro allI impI)
        fix j assume "j < length (x # ns)"
        then show "gain G X U ((x # ns) ! j) \<le> gain G X U ((x # ns) ! Suc i)"
          using all gt by (cases j) (simp_all add: gain_def)
      qed
      from i res gt True step b' a' have "Suc i < length (x # ns) \<and>
             best_scan G X U (x # ns) (b, c) = Inr (Some ((x # ns) ! Suc i), reach G ((x # ns) ! Suc i) X \<inter> U) \<and>
             card c < gain G X U ((x # ns) ! Suc i) \<and>
             (\<forall>j < Suc i. gain G X U ((x # ns) ! j) < gain G X U ((x # ns) ! Suc i)) \<and>
             (\<forall>j < length (x # ns). gain G X U ((x # ns) ! j) \<le> gain G X U ((x # ns) ! Suc i))"
        by simp
      then show ?thesis by blast
    qed
  next
    case False
    then have step: "best_scan G X U (x # ns) (b, c) = best_scan G X U ns (b, c)"
      by (simp add: x)
    from Cons.IH [OF sub, of b c] show ?thesis
    proof
      assume keep: "best_scan G X U ns (b, c) = Inr (b, c) \<and>
                    (\<forall>j < length ns. gain G X U (ns ! j) \<le> card c)"
      have "\<forall>j < length (x # ns). gain G X U ((x # ns) ! j) \<le> card c"
      proof (intro allI impI)
        fix j assume "j < length (x # ns)"
        then show "gain G X U ((x # ns) ! j) \<le> card c"
          using keep False by (cases j) (simp_all add: gain_def)
      qed
      with keep step show ?thesis by simp
    next
      assume "\<exists>i < length ns.
             best_scan G X U ns (b, c) = Inr (Some (ns ! i), reach G (ns ! i) X \<inter> U) \<and>
             card c < gain G X U (ns ! i) \<and>
             (\<forall>j < i. gain G X U (ns ! j) < gain G X U (ns ! i)) \<and>
             (\<forall>j < length ns. gain G X U (ns ! j) \<le> gain G X U (ns ! i))"
      then obtain i where i: "i < length ns"
        and res: "best_scan G X U ns (b, c) = Inr (Some (ns ! i), reach G (ns ! i) X \<inter> U)"
        and gt: "card c < gain G X U (ns ! i)"
        and before: "\<forall>j < i. gain G X U (ns ! j) < gain G X U (ns ! i)"
        and all: "\<forall>j < length ns. gain G X U (ns ! j) \<le> gain G X U (ns ! i)"
        by blast
      have b': "\<forall>j < Suc i. gain G X U ((x # ns) ! j) < gain G X U ((x # ns) ! Suc i)"
      proof (intro allI impI)
        fix j assume "j < Suc i"
        then show "gain G X U ((x # ns) ! j) < gain G X U ((x # ns) ! Suc i)"
          using before gt False by (cases j) (simp_all add: gain_def)
      qed
      have a': "\<forall>j < length (x # ns). gain G X U ((x # ns) ! j) \<le> gain G X U ((x # ns) ! Suc i)"
      proof (intro allI impI)
        fix j assume "j < length (x # ns)"
        then show "gain G X U ((x # ns) ! j) \<le> gain G X U ((x # ns) ! Suc i)"
          using all gt False by (cases j) (simp_all add: gain_def)
      qed
      from i res gt step b' a' have "Suc i < length (x # ns) \<and>
             best_scan G X U (x # ns) (b, c) = Inr (Some ((x # ns) ! Suc i), reach G ((x # ns) ! Suc i) X \<inter> U) \<and>
             card c < gain G X U ((x # ns) ! Suc i) \<and>
             (\<forall>j < Suc i. gain G X U ((x # ns) ! j) < gain G X U ((x # ns) ! Suc i)) \<and>
             (\<forall>j < length (x # ns). gain G X U ((x # ns) ! j) \<le> gain G X U ((x # ns) ! Suc i))"
        by simp
      then show ?thesis by blast
    qed
  qed
qed

lemma best_scan_none:
  assumes "set ns \<subseteq> set (nodes G)" and "\<forall>v \<in> set ns. gain G X U v = 0"
  shows "best_scan G X U ns (None, {}) = Inr (None, {})"
proof -
  from best_scan_cases [OF assms(1), of X U None "{}"] show ?thesis
  proof
    assume "best_scan G X U ns (None, {}) = Inr (None, {}) \<and>
            (\<forall>j < length ns. gain G X U (ns ! j) \<le> card ({} :: int set))"
    then show ?thesis by simp
  next
    assume "\<exists>i < length ns.
             best_scan G X U ns (None, {}) = Inr (Some (ns ! i), reach G (ns ! i) X \<inter> U) \<and>
             card ({} :: int set) < gain G X U (ns ! i) \<and>
             (\<forall>j < i. gain G X U (ns ! j) < gain G X U (ns ! i)) \<and>
             (\<forall>j < length ns. gain G X U (ns ! j) \<le> gain G X U (ns ! i))"
    then obtain i where "i < length ns" and "0 < gain G X U (ns ! i)" by auto
    with assms(2) show ?thesis by (metis less_numeral_extra(3) nth_mem)
  qed
qed

text \<open>
  While something is uncovered and the radius is not negative, the scan selects the
  first node of maximum gain, and that gain is positive.
\<close>

lemma best_scan_select:
  assumes X: "0 \<le> X" and ne: "U \<noteq> {}" and sub: "U \<subseteq> set (nodes G)"
  shows "\<exists>i < length (nodes G).
           best_scan G X U (nodes G) (None, {}) =
             Inr (Some (nodes G ! i), reach G (nodes G ! i) X \<inter> U) \<and>
           0 < gain G X U (nodes G ! i) \<and>
           (\<forall>j < i. gain G X U (nodes G ! j) < gain G X U (nodes G ! i)) \<and>
           (\<forall>j < length (nodes G). gain G X U (nodes G ! j) \<le> gain G X U (nodes G ! i))"
proof -
  from ne obtain u where u: "u \<in> U" by blast
  with sub obtain k where k: "k < length (nodes G)" "nodes G ! k = u"
    by (meson in_set_conv_nth subsetD)
  have "u \<in> reach G u X \<inter> U" using u X by (simp add: reach_self)
  moreover have "finite (reach G u X \<inter> U)" by (simp add: finite_reach)
  ultimately have pos: "0 < gain G X U u"
    unfolding gain_def by (metis card_gt_0_iff empty_iff)
  have "set (nodes G) \<subseteq> set (nodes G)" by simp
  from best_scan_cases [OF this, of X U None "{}"] show ?thesis
  proof
    assume "best_scan G X U (nodes G) (None, {}) = Inr (None, {}) \<and>
            (\<forall>j < length (nodes G). gain G X U (nodes G ! j) \<le> card ({} :: int set))"
    with k pos show ?thesis by auto
  next
    assume "\<exists>i < length (nodes G).
             best_scan G X U (nodes G) (None, {}) =
               Inr (Some (nodes G ! i), reach G (nodes G ! i) X \<inter> U) \<and>
             card ({} :: int set) < gain G X U (nodes G ! i) \<and>
             (\<forall>j < i. gain G X U (nodes G ! j) < gain G X U (nodes G ! i)) \<and>
             (\<forall>j < length (nodes G). gain G X U (nodes G ! j) \<le> gain G X U (nodes G ! i))"
    then show ?thesis by simp
  qed
qed

subsection \<open>The placement loop\<close>

text \<open>The loop with the round written out.\<close>

lemma greedy_loop_unfold:
  "greedy_loop G X uncovered centers =
     (if uncovered = {} then Some (Inr centers)
      else case best_scan G X uncovered (nodes G) (None, {}) of
             Inl e \<Rightarrow> Some (Inl e)
           | Inr (best_node, best_cover) \<Rightarrow>
               greedy_loop G X (uncovered - best_cover) (centers @ [best_node]))"
  by (subst greedy_loop.simps) (simp add: greedy_round_def split: sum.splits prod.splits)

text \<open>With a negative radius no node covers anything, and a round changes only the list.\<close>

lemma greedy_round_negative:
  assumes "X < 0"
  shows "greedy_round G X uncovered centers = Inr (uncovered, centers @ [None])"
proof -
  have "\<forall>v \<in> set (nodes G). gain G X uncovered v = 0"
    using assms by (simp add: gain_def reach_negative)
  then have "best_scan G X uncovered (nodes G) (None, {}) = Inr (None, {})"
    by (intro best_scan_none) simp_all
  then show ?thesis by (simp add: greedy_round_def)
qed

text \<open>In the model, whose lists have no bound, the loop then has no result.\<close>

lemma greedy_loop_negative:
  assumes "X < 0" and "U \<noteq> {}"
  shows "greedy_loop G X U cs = None"
proof (rule ccontr)
  assume "greedy_loop G X U cs \<noteq> None"
  then obtain y where y: "greedy_loop G X U cs = Some y" by blast
  have "X < 0 \<longrightarrow> U \<noteq> {} \<longrightarrow> False"
  proof (rule greedy_loop.raw_induct [where P = "\<lambda>G X U cs y. X < 0 \<longrightarrow> U \<noteq> {} \<longrightarrow> False", OF _ y])
    fix loop :: "graph \<Rightarrow> int \<Rightarrow> int set \<Rightarrow> int option list \<Rightarrow> (error + int option list) option"
      and G X uncovered centers r
    assume IH: "\<And>G X uncovered centers y. loop G X uncovered centers = Some y \<Longrightarrow>
                  X < 0 \<longrightarrow> uncovered \<noteq> {} \<longrightarrow> False"
      and body: "(if uncovered = {} then Some (Inr centers)
                  else case greedy_round G X uncovered centers of
                         Inl e \<Rightarrow> Some (Inl e)
                       | Inr (uncovered', centers') \<Rightarrow> loop G X uncovered' centers') = Some r"
    show "X < 0 \<longrightarrow> uncovered \<noteq> {} \<longrightarrow> False"
    proof (intro impI)
      assume neg: "X < 0" and ne: "uncovered \<noteq> {}"
      from body ne greedy_round_negative [OF neg, of G uncovered centers]
      have "loop G X uncovered (centers @ [None]) = Some r" by simp
      from IH [OF this] neg ne show False by blast
    qed
  qed
  with assms show False by blast
qed

text \<open>
  With a radius that is not negative every round covers something new, so the loop
  ends: it returns nodes of the graph, at most one for each node that was uncovered,
  and what was uncovered is within reach of them.
\<close>

lemma greedy_loop_total:
  assumes X: "0 \<le> X"
  shows "U \<subseteq> set (nodes G) \<Longrightarrow>
         \<exists>vs. greedy_loop G X U cs = Some (Inr (cs @ map Some vs)) \<and>
              length vs \<le> card U \<and> set vs \<subseteq> set (nodes G) \<and>
              U \<subseteq> (\<Union>v \<in> set vs. reach G v X)"
proof (induction "card U" arbitrary: U cs rule: less_induct)
  case less
  show ?case
  proof (cases "U = {}")
    case True
    then have "greedy_loop G X U cs = Some (Inr (cs @ map Some []))"
      by (subst greedy_loop_unfold) simp
    with True show ?thesis by (intro exI [of _ "[]"]) simp
  next
    case False
    have fin: "finite U" using less.prems by (rule finite_subset) simp
    from best_scan_select [OF X False less.prems]
    obtain i where i: "i < length (nodes G)"
      and sel: "best_scan G X U (nodes G) (None, {}) =
                  Inr (Some (nodes G ! i), reach G (nodes G ! i) X \<inter> U)"
      and pos: "0 < gain G X U (nodes G ! i)"
      by blast
    let ?v = "nodes G ! i"
    let ?c = "reach G ?v X \<inter> U"
    have "?c \<noteq> {}" using pos by (auto simp: gain_def)
    then have "U - ?c \<subset> U" by blast
    then have smaller: "card (U - ?c) < card U" using fin by (rule psubset_card_mono [rotated])
    have sub': "U - ?c \<subseteq> set (nodes G)" using less.prems by blast
    from less.hyps [OF smaller sub', of "cs @ [Some ?v]"]
    obtain vs where run: "greedy_loop G X (U - ?c) (cs @ [Some ?v]) =
                            Some (Inr ((cs @ [Some ?v]) @ map Some vs))"
      and len: "length vs \<le> card (U - ?c)"
      and nodes: "set vs \<subseteq> set (nodes G)"
      and cov: "U - ?c \<subseteq> (\<Union>v \<in> set vs. reach G v X)"
      by blast
    have "greedy_loop G X U cs = Some (Inr (cs @ map Some (?v # vs)))"
      using False sel run by (subst greedy_loop_unfold) simp
    moreover have "length (?v # vs) \<le> card U" using len smaller by simp
    moreover have "set (?v # vs) \<subseteq> set (nodes G)" using nodes i by simp
    moreover have "U \<subseteq> (\<Union>v \<in> set (?v # vs). reach G v X)" using cov by auto
    ultimately show ?thesis by blast
  qed
qed

lemma greedy_center_placement_total:
  assumes "0 \<le> X"
  shows "\<exists>vs. greedy_center_placement G X = Some (Inr (map Some vs)) \<and>
              length vs \<le> card (set (nodes G)) \<and> set vs \<subseteq> set (nodes G) \<and>
              set (nodes G) \<subseteq> (\<Union>v \<in> set vs. reach G v X)"
  using greedy_loop_total [OF assms, of "set (nodes G)" G "[]"]
  by (simp add: greedy_center_placement_def)

subsection \<open>Coverage groups\<close>

text \<open>
  For centers that are nodes, the loop over the centers returns, for each of them, the
  ascending list of its whole reach, and the union of these reaches.
\<close>

lemma coverage_groups_nodes:
  "set vs \<subseteq> set (nodes G) \<Longrightarrow>
   coverage_groups G X (map Some vs) (m, a) =
     Inr (\<lambda>c. if c \<in> set vs then Some (sorted_list_of_set (reach G c X)) else m c,
          a \<union> (\<Union>v \<in> set vs. reach G v X))"
proof (induction vs arbitrary: m a)
  case Nil
  then show ?case by simp
next
  case (Cons v vs)
  then have v: "covered_nodes G v X = Inr (reach G v X)" and sub: "set vs \<subseteq> set (nodes G)"
    by (simp_all add: covered_nodes_node)
  have "coverage_groups G X (map Some (v # vs)) (m, a) =
        coverage_groups G X (map Some vs)
          (m(v \<mapsto> sorted_list_of_set (reach G v X)), a \<union> reach G v X)"
    by (simp add: v)
  also have "\<dots> = Inr (\<lambda>c. if c \<in> set vs then Some (sorted_list_of_set (reach G c X))
                          else (m(v \<mapsto> sorted_list_of_set (reach G v X))) c,
                     (a \<union> reach G v X) \<union> (\<Union>v \<in> set vs. reach G v X))"
    by (rule Cons.IH [OF sub])
  also have "(\<lambda>c. if c \<in> set vs then Some (sorted_list_of_set (reach G c X))
                  else (m(v \<mapsto> sorted_list_of_set (reach G v X))) c) =
             (\<lambda>c. if c \<in> set (v # vs) then Some (sorted_list_of_set (reach G c X)) else m c)"
    by (rule ext) simp
  also have "(a \<union> reach G v X) \<union> (\<Union>v \<in> set vs. reach G v X) =
             a \<union> (\<Union>u \<in> set (v # vs). reach G u X)"
    by auto
  finally show ?case .
qed

lemma greedy_center_placement_negative:
  assumes "X < 0" and "nodes G \<noteq> []"
  shows "greedy_center_placement G X = None"
proof -
  from assms(2) have "set (nodes G) \<noteq> {}" by simp
  with assms(1) show ?thesis
    unfolding greedy_center_placement_def by (rule greedy_loop_negative)
qed

section \<open>The chain layout in closed form\<close>

text \<open>
  The graph that \<^verbatim>\<open>build_graph\<close> makes, written out: the nodes 1 to n in this order,
  node i with the neighbours i - 1 (when there is one) and i + 1 (when there is one),
  and with the population at position i - 1 of the list.
\<close>

definition chain_nbrs :: "int \<Rightarrow> int \<Rightarrow> int list" where
  "chain_nbrs n i = (if 1 < i then [i - 1] else []) @ (if i < n then [i + 1] else [])"

lemma add_nbr_map:
  "add_nbr u v (map (\<lambda>i. (i, h i)) xs) =
     map (\<lambda>i. (i, if i = u \<and> v \<notin> set (h i) then h i @ [v] else h i)) xs"
  by (simp add: add_nbr_def)

lemma ensure_node_present: "u \<in> set xs \<Longrightarrow> ensure_node u (map (\<lambda>i. (i, h i)) xs) = map (\<lambda>i. (i, h i)) xs"
  by (simp add: ensure_node_def comp_def)

lemma adj_update: "adj (G\<lparr>adj := al\<rparr>) = al"
  by simp

lemma adj_update_twice: "G\<lparr>adj := al, adj := al'\<rparr> = G\<lparr>adj := al'\<rparr>"
  by simp

lemma upto_snoc_int: "0 \<le> k \<Longrightarrow> [1..k + 1] = [1..k] @ [k + 1]"
  by (simp add: upto_rec2)

lemma add_nodes_closed_form:
  "0 \<le> k \<Longrightarrow>
   fold (\<lambda>i G. add_node G i (pops ! nat (i - 1))) [1..k] empty_graph =
     \<lparr>adj = map (\<lambda>i. (i, [])) [1..k],
      population = (\<lambda>i. if 1 \<le> i \<and> i \<le> k then Some (pops ! nat (i - 1)) else None)\<rparr>"
proof (induction k rule: int_ge_induct)
  case base
  have "(\<lambda>i. if 1 \<le> i \<and> i \<le> (0::int) then Some (pops ! nat (i - 1)) else None) = Map.empty"
    by (rule ext) auto
  then show ?case by (simp add: empty_graph_def)
next
  case (step k)
  let ?G = "\<lparr>adj = map (\<lambda>i. (i, [])) [1..k],
      population = (\<lambda>i. if 1 \<le> i \<and> i \<le> k then Some (pops ! nat (i - 1)) else None)\<rparr>"
  have pop: "(\<lambda>i. if 1 \<le> i \<and> i \<le> k then Some (pops ! nat (i - 1)) else None)
          (k + 1 \<mapsto> pops ! nat (k + 1 - 1)) =
        (\<lambda>i. if 1 \<le> i \<and> i \<le> k + 1 then Some (pops ! nat (i - 1)) else None)"
    using step.hyps by (intro ext) auto
  have "fold (\<lambda>i G. add_node G i (pops ! nat (i - 1))) [1..k + 1] empty_graph =
        add_node ?G (k + 1) (pops ! nat (k + 1 - 1))"
    by (subst upto_snoc_int [OF step.hyps]) (simp add: step.IH)
  also have "\<dots> = \<lparr>adj = map (\<lambda>i. (i, [])) [1..k] @ [(k + 1, [])],
      population = (\<lambda>i. if 1 \<le> i \<and> i \<le> k + 1 then Some (pops ! nat (i - 1)) else None)\<rparr>"
    unfolding add_node_def nodes_def using pop by (simp add: comp_def)
  also have "map (\<lambda>i. (i, [])) [1..k] @ [(k + 1, [])] = map (\<lambda>i. (i, [])) [1..k + 1]"
    by (subst upto_snoc_int [OF step.hyps]) simp
  finally show ?case .
qed

lemma add_edges_closed_form:
  assumes "adj G = map (\<lambda>i. (i, [])) [1..n]"
  shows "0 \<le> j \<Longrightarrow> j < n \<Longrightarrow>
         fold (\<lambda>i G. add_edge G i (i + 1)) [1..j] G =
           G\<lparr>adj := map (\<lambda>i. (i, (if 1 < i \<and> i \<le> j + 1 then [i - 1] else []) @
                                   (if i \<le> j then [i + 1] else []))) [1..n]\<rparr>"
proof (induction j rule: int_ge_induct)
  case base
  have "map (\<lambda>i. (i, (if 1 < i \<and> i \<le> (0::int) + 1 then [i - 1] else []) @
                      (if i \<le> 0 then [i + 1] else []))) [1..n] =
        map (\<lambda>i. (i, [])) [1..n]"
    by (rule map_cong) auto
  with assms show ?case by simp
next
  case (step j)
  let ?h = "\<lambda>i. (if 1 < i \<and> i \<le> j + 1 then [i - 1] else []) @
                 (if i \<le> j then [i + 1] else [])"
  let ?h' = "\<lambda>i. (if 1 < i \<and> i \<le> j + 1 + 1 then [i - 1] else []) @
                  (if i \<le> j + 1 then [i + 1] else [])"
  from step.prems have j: "j < n" by simp
  have IH: "fold (\<lambda>i G. add_edge G i (i + 1)) [1..j] G = G\<lparr>adj := map (\<lambda>i. (i, ?h i)) [1..n]\<rparr>"
    by (rule step.IH [OF j])
  have in1: "j + 1 \<in> set [1..n]" and in2: "j + 1 + 1 \<in> set [1..n]"
    using step.hyps step.prems by simp_all
  have pointwise: "\<And>i. i \<in> set [1..n] \<Longrightarrow>
      (i, let ws = (if i = j + 1 \<and> j + 1 + 1 \<notin> set (?h i) then ?h i @ [j + 1 + 1] else ?h i)
          in if i = j + 1 + 1 \<and> j + 1 \<notin> set ws then ws @ [j + 1] else ws) = (i, ?h' i)"
    using step.hyps by (auto simp: Let_def)
  have "add_nbr (j + 1 + 1) (j + 1)
          (add_nbr (j + 1) (j + 1 + 1)
            (ensure_node (j + 1 + 1) (ensure_node (j + 1) (map (\<lambda>i. (i, ?h i)) [1..n])))) =
        map (\<lambda>i. (i, let ws = (if i = j + 1 \<and> j + 1 + 1 \<notin> set (?h i) then ?h i @ [j + 1 + 1] else ?h i)
                      in if i = j + 1 + 1 \<and> j + 1 \<notin> set ws then ws @ [j + 1] else ws)) [1..n]"
    unfolding ensure_node_present [OF in1] ensure_node_present [OF in2] add_nbr_map Let_def ..
  also have "\<dots> = map (\<lambda>i. (i, ?h' i)) [1..n]"
    by (rule map_cong [OF refl pointwise])
  finally have stepeq: "add_nbr (j + 1 + 1) (j + 1)
          (add_nbr (j + 1) (j + 1 + 1)
            (ensure_node (j + 1 + 1) (ensure_node (j + 1) (map (\<lambda>i. (i, ?h i)) [1..n])))) =
        map (\<lambda>i. (i, ?h' i)) [1..n]" .
  have "fold (\<lambda>i G. add_edge G i (i + 1)) [1..j + 1] G =
        add_edge (G\<lparr>adj := map (\<lambda>i. (i, ?h i)) [1..n]\<rparr>) (j + 1) (j + 1 + 1)"
    by (subst upto_snoc_int [OF step.hyps]) (simp only: fold_append fold.simps comp_def id_def IH)
  also have "\<dots> = G\<lparr>adj := map (\<lambda>i. (i, ?h' i)) [1..n]\<rparr>"
    unfolding add_edge_def adj_update stepeq adj_update_twice ..
  finally show ?case .
qed

lemma build_graph_closed_form:
  "build_graph n pops =
     \<lparr>adj = map (\<lambda>i. (i, chain_nbrs n i)) [1..n],
      population = (\<lambda>i. if 1 \<le> i \<and> i \<le> n then Some (pops ! nat (i - 1)) else None)\<rparr>"
proof (cases "1 \<le> n")
  case False
  then have "[1..n] = []" and "[1..n - 1] = []" by simp_all
  moreover have "(\<lambda>i. if 1 \<le> i \<and> i \<le> n then Some (pops ! nat (i - 1)) else None) = Map.empty"
    using False by (intro ext) auto
  ultimately show ?thesis by (simp add: build_graph_def empty_graph_def)
next
  case True
  let ?G0 = "\<lparr>adj = map (\<lambda>i. (i, [])) [1..n],
      population = (\<lambda>i. if 1 \<le> i \<and> i \<le> n then Some (pops ! nat (i - 1)) else None)\<rparr>"
  have nodes: "fold (\<lambda>i G. add_node G i (pops ! nat (i - 1))) [1..n] empty_graph = ?G0"
    using True by (intro add_nodes_closed_form) simp
  have "adj ?G0 = map (\<lambda>i. (i, [])) [1..n]" by simp
  moreover have "0 \<le> n - 1" "n - 1 < n" using True by simp_all
  ultimately have edges: "fold (\<lambda>i G. add_edge G i (i + 1)) [1..n - 1] ?G0 =
           ?G0\<lparr>adj := map (\<lambda>i. (i, (if 1 < i \<and> i \<le> n - 1 + 1 then [i - 1] else []) @
                                   (if i \<le> n - 1 then [i + 1] else []))) [1..n]\<rparr>"
    by (rule add_edges_closed_form)
  have same: "map (\<lambda>i. (i, (if 1 < i \<and> i \<le> n - 1 + 1 then [i - 1] else []) @
                         (if i \<le> n - 1 then [i + 1] else []))) [1..n] =
        map (\<lambda>i. (i, chain_nbrs n i)) [1..n]"
    by (intro map_cong) (auto simp: chain_nbrs_def)
  show ?thesis
    unfolding build_graph_def nodes edges same by simp
qed

lemma nodes_build_graph: "nodes (build_graph n pops) = [1..n]"
  by (simp add: build_graph_closed_form nodes_def comp_def)

lemma population_build_graph:
  "population (build_graph n pops) i =
     (if 1 \<le> i \<and> i \<le> n then Some (pops ! nat (i - 1)) else None)"
  by (simp add: build_graph_closed_form)

lemma neighbors_build_graph:
  "neighbors (build_graph n pops) i = (if 1 \<le> i \<and> i \<le> n then chain_nbrs n i else [])"
  by (simp add: build_graph_closed_form neighbors_def map_of_map_restrict restrict_map_def)

section \<open>Well-formed graphs and the statistics\<close>

text \<open>
  What a \<^verbatim>\<open>networkx\<close> graph guarantees by construction: the nodes are distinct keys and
  every neighbour is itself a node.  A graph carries a population list when its nodes,
  in their order, have the populations of the list.
\<close>

definition well_formed :: "graph \<Rightarrow> bool" where
  "well_formed G \<longleftrightarrow>
     distinct (nodes G) \<and> (\<forall>v \<in> set (nodes G). set (neighbors G v) \<subseteq> set (nodes G))"

definition populations_listed :: "graph \<Rightarrow> int list \<Rightarrow> bool" where
  "populations_listed G population_list \<longleftrightarrow>
     map (population G) (nodes G) = map Some population_list"

lemma bfs_within:
  "\<forall>v \<in> set (nodes G). set (neighbors G v) \<subseteq> set (nodes G) \<Longrightarrow>
   set thislevel \<subseteq> set (nodes G) \<Longrightarrow>
   fst ` set (bfs G thislevel seen level) \<subseteq> set (nodes G)"
proof (induction G thislevel seen level rule: bfs.induct)
  case (1 G thislevel seen level)
  note closed = "1.prems"(1) and level = "1.prems"(2)
  show ?case
  proof (cases "thislevel = []")
    case True
    then show ?thesis by (subst bfs.simps) simp
  next
    case False
    have "set (next_level G thislevel seen) \<subseteq> set (nodes G)"
    proof
      fix w assume "w \<in> set (next_level G thislevel seen)"
      then obtain u where "u \<in> set thislevel" and "w \<in> set (neighbors G u)"
        by (auto simp: next_level_def)
      with closed level show "w \<in> set (nodes G)" by blast
    qed
    with "1.IH" [OF False closed]
    have "fst ` set (bfs G (next_level G thislevel seen)
                      (seen \<union> set (next_level G thislevel seen)) (level + 1)) \<subseteq> set (nodes G)"
      by blast
    moreover have "fst ` set (map (\<lambda>v. (v, level)) thislevel) \<subseteq> set (nodes G)"
      using level by auto
    ultimately show ?thesis using False by (subst bfs.simps) (simp add: image_Un)
  qed
qed

lemma reach_within:
  assumes "well_formed G" and "v \<in> set (nodes G)"
  shows "reach G v X \<subseteq> set (nodes G)"
proof -
  from assms(1) have "\<forall>v \<in> set (nodes G). set (neighbors G v) \<subseteq> set (nodes G)"
    by (simp add: well_formed_def)
  then have "fst ` set (bfs G [v] {v} 0) \<subseteq> set (nodes G)"
    using assms(2) by (intro bfs_within) simp_all
  then show ?thesis by (auto simp: reach_def)
qed

text \<open>On a well-formed graph the placement and the loop over its centers cover exactly the nodes.\<close>

lemma placement_and_groups:
  assumes "0 \<le> X" and "well_formed G"
  shows "\<exists>vs m. greedy_center_placement G X = Some (Inr (map Some vs)) \<and>
                set vs \<subseteq> set (nodes G) \<and>
                coverage_groups G X (map Some vs) (Map.empty, {}) = Inr (m, set (nodes G))"
proof -
  from greedy_center_placement_total [OF assms(1), of G]
  obtain vs where run: "greedy_center_placement G X = Some (Inr (map Some vs))"
    and nodes: "set vs \<subseteq> set (nodes G)"
    and cov: "set (nodes G) \<subseteq> (\<Union>v \<in> set vs. reach G v X)"
    by blast
  have "(\<Union>v \<in> set vs. reach G v X) \<subseteq> set (nodes G)"
    using reach_within [OF assms(2)] nodes by blast
  with cov have "{} \<union> (\<Union>v \<in> set vs. reach G v X) = set (nodes G)" by blast
  with coverage_groups_nodes [OF nodes, of X Map.empty "{}"] run nodes show ?thesis by auto
qed

lemma covered_population_all:
  assumes "well_formed G" and "populations_listed G pops"
  shows "covered_population G (set (nodes G)) = Inr (sum_list pops)"
proof -
  from assms(2) have eq: "map (population G) (nodes G) = map Some pops"
    by (simp add: populations_listed_def)
  have some: "\<forall>n \<in> set (nodes G). population G n \<noteq> None"
  proof
    fix n assume "n \<in> set (nodes G)"
    then have "population G n \<in> set (map (population G) (nodes G))" by simp
    with eq have "population G n \<in> set (map Some pops)" by simp
    then show "population G n \<noteq> None" by auto
  qed
  have "(\<Sum>n \<in> set (nodes G). the (population G n)) =
        sum_list (map (\<lambda>n. the (population G n)) (nodes G))"
    using assms(1) by (simp add: well_formed_def sum_list_distinct_conv_sum_set)
  also have "\<dots> = sum_list (map the (map (population G) (nodes G)))"
    by (simp add: comp_def)
  also have "\<dots> = sum_list pops" by (simp add: eq comp_def)
  finally show ?thesis using some by (simp add: covered_population_def)
qed

lemma well_formed_build_graph: "well_formed (build_graph n pops)"
  by (auto simp: well_formed_def nodes_build_graph neighbors_build_graph chain_nbrs_def)

lemma populations_listed_build_graph:
  assumes "int (length pops) = n"
  shows "populations_listed (build_graph n pops) pops"
proof -
  have "map (population (build_graph n pops)) [1..n] = map Some pops"
  proof (rule nth_equalityI)
    show "length (map (population (build_graph n pops)) [1..n]) = length (map Some pops)"
      using assms by auto
  next
    fix i assume "i < length (map (population (build_graph n pops)) [1..n])"
    then have i: "int i < n" by auto
    then have "[1..n] ! i = 1 + int i" by simp
    with i assms show "map (population (build_graph n pops)) [1..n] ! i = map Some pops ! i"
      by (simp add: population_build_graph)
  qed
  then show ?thesis by (simp add: populations_listed_def nodes_build_graph)
qed

text \<open>What the page computes after the placement, on a well-formed graph with its population list.\<close>

lemma summarize_well_formed:
  assumes "well_formed G" and "populations_listed G pops"
    and "coverage_groups G X centers (Map.empty, {}) = Inr (m, set (nodes G))"
  shows "summarize G pops X centers =
           (if sum_list pops = 0 then Invalid_input ZeroDivisionError
            else Summary \<lparr>centers_placed = centers, center_coverage_map = m,
                   uncovered_nodes = {}, total_population = sum_list pops,
                   population_covered = sum_list pops, percent = 100\<rparr>)"
  by (simp add: summarize_def assms(3) covered_population_all [OF assms(1,2)]
      coverage_percent_def Let_def)

text \<open>
  The division by the total population has no guard: whenever the total is 0 the run
  ends in the handler with \<^verbatim>\<open>ZeroDivisionError\<close>.
\<close>

lemma zero_total_raises:
  assumes "int (length population_list) = num_locations" and "0 \<le> X"
    and "sum_list population_list = 0"
  shows "compute_centers num_locations population_list X = Some (Invalid_input ZeroDivisionError)"
proof -
  let ?G = "build_graph num_locations population_list"
  have wf: "well_formed ?G" by (rule well_formed_build_graph)
  have pl: "populations_listed ?G population_list"
    using assms(1) by (rule populations_listed_build_graph)
  from placement_and_groups [OF assms(2) wf]
  obtain vs m where run: "greedy_center_placement ?G X = Some (Inr (map Some vs))"
    and groups: "coverage_groups ?G X (map Some vs) (Map.empty, {}) = Inr (m, set (nodes ?G))"
    by blast
  from summarize_well_formed [OF wf pl groups] assms(3)
  have "summarize ?G population_list X (map Some vs) = Invalid_input ZeroDivisionError" by simp
  with run assms(1) show ?thesis by (simp add: compute_centers_def)
qed

section \<open>What the search computes\<close>

text \<open>
  The nodes within k hops of a node, by k rounds of adding all neighbours.  The search
  yields a node with a level of at most k exactly when it is one of them.
\<close>

definition expand :: "graph \<Rightarrow> int set \<Rightarrow> int set" where
  "expand G S = S \<union> (\<Union>v \<in> S. set (neighbors G v))"

lemma expand_extensive: "S \<subseteq> (expand G ^^ j) S"
proof (induction j)
  case 0
  then show ?case by simp
next
  case (Suc j)
  then show ?case by (auto simp: expand_def)
qed

lemma set_next_level:
  "set (next_level G thislevel seen) = (\<Union>v \<in> set thislevel. set (neighbors G v)) - seen"
  by (auto simp: next_level_def)

lemma bfs_upto:
  "set F \<subseteq> S \<Longrightarrow> (\<Union>v \<in> S - set F. set (neighbors G v)) \<subseteq> S \<Longrightarrow>
   {u. \<exists>d. (u, d) \<in> set (bfs G F S l) \<and> d \<le> l + int j} = (expand G ^^ j) S - (S - set F)"
proof (induction j arbitrary: F S l)
  case 0
  show ?case
  proof (cases "F = []")
    case True
    then show ?thesis by (subst bfs.simps) simp
  next
    case False
    have "\<And>u d. (u, d) \<in> set (bfs G (next_level G F S) (S \<union> set (next_level G F S)) (l + 1))
            \<Longrightarrow> \<not> d \<le> l"
      using bfs_level_le by fastforce
    then have "{u. \<exists>d. (u, d) \<in> set (bfs G F S l) \<and> d \<le> l + int 0} = set F"
      using False by (subst bfs.simps) auto
    with "0.prems"(1) show ?thesis by auto
  qed
next
  case (Suc j)
  show ?case
  proof (cases "F = []")
    case True
    with Suc.prems(2) have "expand G S = S" by (auto simp: expand_def)
    then have "(expand G ^^ Suc j) S = S" by (induction j) simp_all
    with True show ?thesis by (subst bfs.simps) simp
  next
    case False
    let ?nl = "next_level G F S"
    let ?S' = "S \<union> set ?nl"
    have nl: "set ?nl = (\<Union>v \<in> set F. set (neighbors G v)) - S" by (rule set_next_level)
    have S': "?S' = expand G S"
      using Suc.prems by (auto simp: nl expand_def)
    have inv1: "set ?nl \<subseteq> ?S'" by simp
    have "?S' - set ?nl = S" using nl by auto
    then have inv2: "(\<Union>v \<in> ?S' - set ?nl. set (neighbors G v)) \<subseteq> ?S'"
      using S' by (auto simp: expand_def)
    have rec: "{u. \<exists>d. (u, d) \<in> set (bfs G ?nl ?S' (l + 1)) \<and> d \<le> (l + 1) + int j} =
               (expand G ^^ j) ?S' - (?S' - set ?nl)"
      by (rule Suc.IH [OF inv1 inv2])
    have pow: "(expand G ^^ j) ?S' = (expand G ^^ Suc j) S"
      unfolding S' by (simp add: funpow_swap1)
    have e: "l + int (Suc j) = l + 1 + int j" by simp
    have rec': "{u. \<exists>d. (u, d) \<in> set (bfs G ?nl ?S' (l + 1)) \<and> d \<le> l + int (Suc j)} =
                (expand G ^^ Suc j) S - S"
      unfolding e rec by (simp only: pow \<open>?S' - set ?nl = S\<close>)
    have "{u. \<exists>d. (u, d) \<in> set (bfs G F S l) \<and> d \<le> l + int (Suc j)} =
          set F \<union> {u. \<exists>d. (u, d) \<in> set (bfs G ?nl ?S' (l + 1)) \<and> d \<le> l + int (Suc j)}"
      using False by (subst bfs.simps) auto
    also have "\<dots> = set F \<union> ((expand G ^^ Suc j) S - S)" by (simp only: rec')
    also have "\<dots> = (expand G ^^ Suc j) S - (S - set F)"
      using Suc.prems(1) expand_extensive [where S = S and G = G and j = "Suc j"] by blast
    finally show ?thesis .
  qed
qed

lemma reach_expand:
  assumes "0 \<le> X"
  shows "reach G v X = (expand G ^^ nat X) {v}"
proof -
  have "reach G v X = {u. \<exists>d. (u, d) \<in> set (bfs G [v] {v} 0) \<and> d \<le> X}"
    by (force simp: reach_def)
  also have "\<dots> = {u. \<exists>d. (u, d) \<in> set (bfs G [v] {v} 0) \<and> d \<le> 0 + int (nat X)}"
    using assms by simp
  also have "\<dots> = (expand G ^^ nat X) {v} - ({v} - set [v])"
    by (rule bfs_upto) simp_all
  finally show ?thesis by simp
qed

section \<open>The placement on the chain layout\<close>

text \<open>On the chain the nodes within X hops of a node are an interval, cut at both ends of the chain.\<close>

lemma expand_chain_interval:
  assumes "1 \<le> a" and "a \<le> b" and "b \<le> n"
  shows "expand (build_graph n pops) {a..b} = {max 1 (a - 1)..min n (b + 1)}"
proof
  show "expand (build_graph n pops) {a..b} \<subseteq> {max 1 (a - 1)..min n (b + 1)}"
    using assms
    by (auto simp: expand_def neighbors_build_graph chain_nbrs_def split: if_splits)
next
  show "{max 1 (a - 1)..min n (b + 1)} \<subseteq> expand (build_graph n pops) {a..b}"
  proof
    fix x assume x: "x \<in> {max 1 (a - 1)..min n (b + 1)}"
    from x have "max 1 (a - 1) \<le> x" and "x \<le> min n (b + 1)" by simp_all
    then have "(a \<le> x \<and> x \<le> b) \<or> (x = a - 1 \<and> 1 < a) \<or> (x = b + 1 \<and> b < n)"
      using assms by arith
    then consider "a \<le> x \<and> x \<le> b" | "x = a - 1 \<and> 1 < a" | "x = b + 1 \<and> b < n"
      by blast
    then show "x \<in> expand (build_graph n pops) {a..b}"
    proof cases
      case 1
      then show ?thesis by (simp add: expand_def)
    next
      case 2
      then have "a \<in> {a..b}" and "x \<in> set (neighbors (build_graph n pops) a)"
        using assms by (simp_all add: neighbors_build_graph chain_nbrs_def)
      then show ?thesis unfolding expand_def by blast
    next
      case 3
      then have "b \<in> {a..b}" and "x \<in> set (neighbors (build_graph n pops) b)"
        using assms by (simp_all add: neighbors_build_graph chain_nbrs_def)
      then show ?thesis unfolding expand_def by blast
    qed
  qed
qed

lemma ball_chain:
  assumes "1 \<le> v" and "v \<le> n"
  shows "(expand (build_graph n pops) ^^ k) {v} = {max 1 (v - int k)..min n (v + int k)}"
proof (induction k)
  case 0
  from assms show ?case by (simp add: max_def min_def)
next
  case (Suc k)
  have "(expand (build_graph n pops) ^^ Suc k) {v} =
        expand (build_graph n pops) {max 1 (v - int k)..min n (v + int k)}"
    by (simp add: Suc.IH)
  also have "\<dots> = {max 1 (max 1 (v - int k) - 1)..min n (min n (v + int k) + 1)}"
    using assms by (intro expand_chain_interval) simp_all
  also have "max 1 (max 1 (v - int k) - 1) = max 1 (v - int (Suc k))" by simp
  also have "min n (min n (v + int k) + 1) = min n (v + int (Suc k))" by simp
  finally show ?case .
qed

lemma reach_chain:
  assumes "0 \<le> X" and "1 \<le> v" and "v \<le> n"
  shows "reach (build_graph n pops) v X = {max 1 (v - X)..min n (v + X)}"
  using assms by (simp add: reach_expand ball_chain)

lemma gain_chain:
  assumes "0 \<le> X" and "1 \<le> v" and "v \<le> n" and "1 \<le> k"
  shows "gain (build_graph n pops) X {k..n} v = nat (min n (v + X) - max k (v - X) + 1)"
proof -
  have "{max 1 (v - X)..min n (v + X)} \<inter> {k..n} = {max k (v - X)..min n (v + X)}"
    using assms by auto
  then show ?thesis using assms by (simp add: gain_def reach_chain)
qed

lemma cover_chain:
  assumes "0 \<le> X" and "1 \<le> v" and "v \<le> n" and "1 \<le> k"
  shows "reach (build_graph n pops) v X \<inter> {k..n} = {max k (v - X)..min n (v + X)}"
  using assms by (auto simp: reach_chain)

lemma nth_nodes_build_graph:
  "j < nat n \<Longrightarrow> nodes (build_graph n pops) ! j = 1 + int j"
  by (simp add: nodes_build_graph)

text \<open>
  A round on the chain, entered with the nodes from k on uncovered: the first node of
  maximum gain covers the 2X + 1 nodes from k on, or all that are left.
\<close>

lemma chain_round:
  assumes X: "0 \<le> X" and k1: "1 \<le> k" and kn: "k \<le> n"
  shows "\<exists>v. best_scan (build_graph n pops) X {k..n} (nodes (build_graph n pops)) (None, {}) =
               Inr (Some v, {k..min n (k + 2 * X)})"
proof -
  let ?G = "build_graph n pops"
  have len: "length (nodes ?G) = nat n" by (simp add: nodes_build_graph)
  have ne: "{k..n} \<noteq> {}" using kn by simp
  have sub: "{k..n} \<subseteq> set (nodes ?G)" using k1 by (auto simp: nodes_build_graph)
  from best_scan_select [OF X ne sub]
  obtain i where i: "i < length (nodes ?G)"
    and sel: "best_scan ?G X {k..n} (nodes ?G) (None, {}) =
                Inr (Some (nodes ?G ! i), reach ?G (nodes ?G ! i) X \<inter> {k..n})"
    and before: "\<forall>j < i. gain ?G X {k..n} (nodes ?G ! j) < gain ?G X {k..n} (nodes ?G ! i)"
    and all: "\<forall>j < length (nodes ?G).
                gain ?G X {k..n} (nodes ?G ! j) \<le> gain ?G X {k..n} (nodes ?G ! i)"
    by blast
  define v where "v = 1 + int i"
  have i': "i < nat n" using i len by simp
  have vi: "nodes ?G ! i = v" using i' by (simp add: nth_nodes_build_graph v_def)
  have v1: "1 \<le> v" and vn: "v \<le> n" using i' by (simp_all add: v_def)
  have gv: "gain ?G X {k..n} v = nat (min n (v + X) - max k (v - X) + 1)"
    by (rule gain_chain [OF X v1 vn k1])
  have left: "v - X \<le> k"
  proof (rule ccontr)
    assume "\<not> v - X \<le> k"
    then have far: "k < v - X" by simp
    with k1 X have "2 \<le> v" by simp
    then have i1: "i - 1 < i" and "i - 1 < nat n" using i' by (simp_all add: v_def)
    then have prev: "nodes ?G ! (i - 1) = v - 1"
      using \<open>2 \<le> v\<close> by (simp add: nth_nodes_build_graph v_def)
    have "gain ?G X {k..n} (v - 1) = nat (min n (v - 1 + X) - max k (v - 1 - X) + 1)"
      using \<open>2 \<le> v\<close> vn by (intro gain_chain [OF X _ _ k1]) simp_all
    moreover from before i1 have "gain ?G X {k..n} (nodes ?G ! (i - 1)) < gain ?G X {k..n} v"
      using vi by metis
    ultimately have "nat (min n (v - 1 + X) - max k (v - 1 - X) + 1) <
                     nat (min n (v + X) - max k (v - X) + 1)"
      using prev gv by simp
    with far show False by arith
  qed
  define w where "w = min n (k + X)"
  have w1: "1 \<le> w" and wn: "w \<le> n" using k1 kn X by (simp_all add: w_def)
  then have wi: "nat (w - 1) < nat n" by simp
  then have "nodes ?G ! nat (w - 1) = w" using w1 by (simp add: nth_nodes_build_graph)
  moreover from all wi len
  have "gain ?G X {k..n} (nodes ?G ! nat (w - 1)) \<le> gain ?G X {k..n} (nodes ?G ! i)" by simp
  moreover have "gain ?G X {k..n} w = nat (min n (w + X) - max k (w - X) + 1)"
    by (rule gain_chain [OF X w1 wn k1])
  ultimately have "nat (min n (w + X) - max k (w - X) + 1) \<le>
                   nat (min n (v + X) - max k (v - X) + 1)"
    using vi gv by simp
  with left X k1 kn v1 vn have right: "min n (v + X) = min n (k + 2 * X)"
    unfolding w_def by arith
  have "reach ?G v X \<inter> {k..n} = {max k (v - X)..min n (v + X)}"
    by (rule cover_chain [OF X v1 vn k1])
  also have "\<dots> = {k..min n (k + 2 * X)}" using left right by (simp add: max_def)
  finally show ?thesis using sel vi by auto
qed

text \<open>The number of rounds on the chain: the nodes left, divided by 2X + 1 and rounded up.\<close>

lemma div_add_divisor:
  fixes a d :: int
  assumes "0 < d"
  shows "(a + d) div d = a div d + 1"
  using assms by (subst div_add_self2) simp_all

lemma rounds_step:
  fixes X k n :: int
  assumes "0 \<le> X" and "k \<le> n"
  shows "1 + (n - (min n (k + 2 * X) + 1) + 1 + 2 * X) div (2 * X + 1) =
         (n - k + 1 + 2 * X) div (2 * X + 1)"
proof -
  have d: "0 < 2 * X + 1" using assms(1) by simp
  have "n - k + 1 + 2 * X = (n - k) + (2 * X + 1)" by simp
  then have "(n - k + 1 + 2 * X) div (2 * X + 1) = ((n - k) + (2 * X + 1)) div (2 * X + 1)"
    by (rule arg_cong)
  also have "\<dots> = (n - k) div (2 * X + 1) + 1" by (rule div_add_divisor [OF d])
  finally have rhs: "(n - k + 1 + 2 * X) div (2 * X + 1) = (n - k) div (2 * X + 1) + 1" .
  show ?thesis
  proof (cases "k + 2 * X \<le> n")
    case True
    then have "n - (min n (k + 2 * X) + 1) + 1 + 2 * X = n - k" by simp
    then have "(n - (min n (k + 2 * X) + 1) + 1 + 2 * X) div (2 * X + 1) = (n - k) div (2 * X + 1)"
      by (rule arg_cong)
    with rhs show ?thesis by linarith
  next
    case False
    then have "n - (min n (k + 2 * X) + 1) + 1 + 2 * X = 2 * X" by simp
    then have "(n - (min n (k + 2 * X) + 1) + 1 + 2 * X) div (2 * X + 1) = (2 * X) div (2 * X + 1)"
      by (rule arg_cong)
    moreover have "(2 * X) div (2 * X + 1) = 0"
      using assms(1) by (intro div_pos_pos_trivial) simp_all
    moreover have "(n - k) div (2 * X + 1) = 0"
      using False assms by (intro div_pos_pos_trivial) simp_all
    ultimately show ?thesis using rhs by linarith
  qed
qed

lemma chain_loop:
  assumes X: "0 \<le> X"
  shows "1 \<le> k \<Longrightarrow> k \<le> n + 1 \<Longrightarrow>
         \<exists>vs. greedy_loop (build_graph n pops) X {k..n} cs = Some (Inr (cs @ map Some vs)) \<and>
              int (length vs) = (n - k + 1 + 2 * X) div (2 * X + 1)"
proof (induction "nat (n + 1 - k)" arbitrary: k cs rule: less_induct)
  case less
  let ?G = "build_graph n pops"
  show ?case
  proof (cases "k \<le> n")
    case False
    with less.prems have k: "k = n + 1" by simp
    then have "{k..n} = {}" by simp
    then have "greedy_loop ?G X {k..n} cs = Some (Inr (cs @ map Some []))"
      by (subst greedy_loop_unfold) simp
    moreover have "(n - k + 1 + 2 * X) div (2 * X + 1) = 0"
      using X k by (simp add: div_pos_pos_trivial)
    ultimately show ?thesis by (intro exI [of _ "[]"]) simp
  next
    case True
    from chain_round [OF X less.prems(1) True]
    obtain v where sel: "best_scan ?G X {k..n} (nodes ?G) (None, {}) =
                           Inr (Some v, {k..min n (k + 2 * X)})"
      by blast
    let ?k' = "min n (k + 2 * X) + 1"
    have rest: "{k..n} - {k..min n (k + 2 * X)} = {?k'..n}" using X by auto
    have "{k..n} \<noteq> {}" using True by simp
    then have unfold: "greedy_loop ?G X {k..n} cs = greedy_loop ?G X {?k'..n} (cs @ [Some v])"
      by (subst greedy_loop_unfold) (simp add: sel rest)
    have "nat (n + 1 - ?k') < nat (n + 1 - k)" and "1 \<le> ?k'" and "?k' \<le> n + 1"
      using X True less.prems(1) by simp_all
    from less.hyps [OF this, of "cs @ [Some v]"]
    obtain vs where run: "greedy_loop ?G X {?k'..n} (cs @ [Some v]) =
                            Some (Inr ((cs @ [Some v]) @ map Some vs))"
      and count: "int (length vs) = (n - ?k' + 1 + 2 * X) div (2 * X + 1)"
      by blast
    have "greedy_loop ?G X {k..n} cs = Some (Inr (cs @ map Some (v # vs)))"
      using unfold run by simp
    moreover have "int (length (v # vs)) = (n - k + 1 + 2 * X) div (2 * X + 1)"
      using count rounds_step [OF X True] by simp
    ultimately show ?thesis by blast
  qed
qed

lemma chain_placement_count:
  assumes "0 \<le> X" and "0 \<le> n"
  shows "\<exists>vs. greedy_center_placement (build_graph n pops) X = Some (Inr (map Some vs)) \<and>
              int (length vs) = (n + 2 * X) div (2 * X + 1)"
proof -
  have "set (nodes (build_graph n pops)) = {1..n}" by (simp add: nodes_build_graph)
  moreover from chain_loop [OF assms(1), of 1 n pops "[]"] assms(2)
  have "\<exists>vs. greedy_loop (build_graph n pops) X {1..n} [] = Some (Inr ([] @ map Some vs)) \<and>
              int (length vs) = (n - 1 + 1 + 2 * X) div (2 * X + 1)"
    by simp
  ultimately show ?thesis by (simp add: greedy_center_placement_def)
qed

lemma rounds_antimono:
  fixes n X1 X2 :: int
  assumes "0 \<le> n" and "0 \<le> X1" and "X1 \<le> X2"
  shows "(n + 2 * X2) div (2 * X2 + 1) \<le> (n + 2 * X1) div (2 * X1 + 1)"
proof -
  define q where "q = (n + 2 * X1) div (2 * X1 + 1)"
  have d1: "0 < 2 * X1 + 1" and d2: "0 < 2 * X2 + 1" using assms by simp_all
  have q0: "0 \<le> q" unfolding q_def using assms d1 by (simp add: pos_imp_zdiv_nonneg_iff)
  have "n + 2 * X1 = (2 * X1 + 1) * q + (n + 2 * X1) mod (2 * X1 + 1)"
    unfolding q_def by simp
  moreover have "(n + 2 * X1) mod (2 * X1 + 1) < 2 * X1 + 1" by (rule pos_mod_bound [OF d1])
  ultimately have "n \<le> (2 * X1 + 1) * q" by linarith
  also have "\<dots> \<le> (2 * X2 + 1) * q" using assms(3) q0 by (intro mult_right_mono) simp_all
  finally have "n + 2 * X2 \<le> (2 * X2 + 1) * q + 2 * X2" by simp
  then have "(n + 2 * X2) div (2 * X2 + 1) \<le> ((2 * X2 + 1) * q + 2 * X2) div (2 * X2 + 1)"
    using d2 by (rule zdiv_mono1)
  also have "\<dots> = q + (2 * X2) div (2 * X2 + 1)" using d2 by (subst div_mult_self4) simp_all
  also have "(2 * X2) div (2 * X2 + 1) = 0" using assms by (intro div_pos_pos_trivial) simp_all
  finally show ?thesis by (simp add: q_def)
qed

section \<open>The claims\<close>


text \<open>
  C1, the claim as written fails.  It speaks of every iteration of the loop, for any
  radius.  On the chain of 3 nodes with radius -1 the first round computes the gain of
  every node; all three gains are 0, so 0 is the maximum gain and node 1 is the first
  node that has it.  The round appends \<^verbatim>\<open>None\<close>, not node 1.
\<close>

theorem negative_radius_round_appends_no_node_counterexample:
  "nodes (build_graph 3 [5, 0, 7]) = [1, 2, 3] \<and>
   map (gain (build_graph 3 [5, 0, 7]) (- 1) {1, 2, 3}) (nodes (build_graph 3 [5, 0, 7])) =
     [0, 0, 0] \<and>
   greedy_round (build_graph 3 [5, 0, 7]) (- 1) {1, 2, 3} [] = Inr ({1, 2, 3}, [None]) \<and>
   greedy_round (build_graph 3 [5, 0, 7]) (- 1) {1, 2, 3} [] \<noteq> Inr ({1, 2, 3}, [Some 1])"
proof -
  have n: "nodes (build_graph 3 [5, 0, 7]) = [1, 2, 3]" by code_simp
  have g: "map (gain (build_graph 3 [5, 0, 7]) (- 1) {1, 2, 3})
             (nodes (build_graph 3 [5, 0, 7])) = [0, 0, 0]"
    by code_simp
  have r: "greedy_round (build_graph 3 [5, 0, 7]) (- 1) {1, 2, 3} [] = Inr ({1, 2, 3}, [None])"
    by code_simp
  from n g r show ?thesis by simp
qed

text \<open>
  C1, as amended: for a radius that is not negative.  In a round of the placement loop
  (something is uncovered, and what is uncovered are nodes of the graph) the scan goes
  over all nodes of the graph in their iteration order, covered or not, chosen before
  or not.  The gain of a node is the number of uncovered nodes in what
  \<^verbatim>\<open>covered_nodes\<close> returns for it.  The scan selects the node at the first position of
  maximum gain: every node before it has a strictly smaller gain, no node has a larger
  one.  The round appends that node to the centers and removes its cover from the
  uncovered set, and the list that the loop returns holds that node right after the
  centers chosen before.
\<close>

theorem greedy_round_selects_first_maximum:
  assumes "0 \<le> X" and "uncovered \<noteq> {}" and "uncovered \<subseteq> set (nodes G)"
  shows "\<exists>i < length (nodes G).
           (\<forall>j < length (nodes G). covered_nodes G (nodes G ! j) X = Inr (reach G (nodes G ! j) X)) \<and>
           best_scan G X uncovered (nodes G) (None, {}) =
             Inr (Some (nodes G ! i), reach G (nodes G ! i) X \<inter> uncovered) \<and>
           greedy_round G X uncovered centers =
             Inr (uncovered - (reach G (nodes G ! i) X \<inter> uncovered),
                  centers @ [Some (nodes G ! i)]) \<and>
           (\<exists>rest. greedy_loop G X uncovered centers =
                     Some (Inr (centers @ Some (nodes G ! i) # rest))) \<and>
           0 < gain G X uncovered (nodes G ! i) \<and>
           (\<forall>j < i. gain G X uncovered (nodes G ! j) < gain G X uncovered (nodes G ! i)) \<and>
           (\<forall>j < length (nodes G).
               gain G X uncovered (nodes G ! j) \<le> gain G X uncovered (nodes G ! i))"
proof -
  from best_scan_select [OF assms]
  obtain i where i: "i < length (nodes G)"
    and sel: "best_scan G X uncovered (nodes G) (None, {}) =
                Inr (Some (nodes G ! i), reach G (nodes G ! i) X \<inter> uncovered)"
    and rest: "0 < gain G X uncovered (nodes G ! i)"
      "\<forall>j < i. gain G X uncovered (nodes G ! j) < gain G X uncovered (nodes G ! i)"
      "\<forall>j < length (nodes G).
          gain G X uncovered (nodes G ! j) \<le> gain G X uncovered (nodes G ! i)"
    by blast
  let ?v = "nodes G ! i"
  let ?c = "reach G ?v X \<inter> uncovered"
  have round: "greedy_round G X uncovered centers = Inr (uncovered - ?c, centers @ [Some ?v])"
    using sel by (simp add: greedy_round_def)
  have "uncovered - ?c \<subseteq> set (nodes G)" using assms(3) by blast
  from greedy_loop_total [OF assms(1) this, of "centers @ [Some ?v]"]
  obtain vs where "greedy_loop G X (uncovered - ?c) (centers @ [Some ?v]) =
                     Some (Inr ((centers @ [Some ?v]) @ map Some vs))"
    by blast
  then have "greedy_loop G X uncovered centers = Some (Inr (centers @ Some ?v # map Some vs))"
    using assms(2) round by (subst greedy_loop.simps) simp
  then have loop: "\<exists>rest. greedy_loop G X uncovered centers =
                            Some (Inr (centers @ Some ?v # rest))"
    by blast
  have cov: "\<forall>j < length (nodes G).
      covered_nodes G (nodes G ! j) X = Inr (reach G (nodes G ! j) X)"
    by (simp add: covered_nodes_node)
  from i cov sel round loop rest show ?thesis by blast
qed

theorem greedy_round_selects_first_maximum_witness:
  "(0::int) \<le> 1 \<and> {4, 5 :: int} \<noteq> {} \<and>
   {4, 5} \<subseteq> set (nodes (build_graph 5 [10, 10, 10, 10, 10])) \<and>
   best_scan (build_graph 5 [10, 10, 10, 10, 10]) 1 {4, 5}
     (nodes (build_graph 5 [10, 10, 10, 10, 10])) (None, {}) = Inr (Some 4, {4, 5}) \<and>
   greedy_round (build_graph 5 [10, 10, 10, 10, 10]) 1 {4, 5} [Some 2] =
     Inr ({}, [Some 2, Some 4]) \<and>
   greedy_loop (build_graph 5 [10, 10, 10, 10, 10]) 1 {4, 5} [Some 2] =
     Some (Inr [Some 2, Some 4]) \<and>
   (\<exists>i < length (nodes (build_graph 5 [10, 10, 10, 10, 10])).
      best_scan (build_graph 5 [10, 10, 10, 10, 10]) 1 {4, 5}
        (nodes (build_graph 5 [10, 10, 10, 10, 10])) (None, {}) =
        Inr (Some (nodes (build_graph 5 [10, 10, 10, 10, 10]) ! i),
             reach (build_graph 5 [10, 10, 10, 10, 10])
               (nodes (build_graph 5 [10, 10, 10, 10, 10]) ! i) 1 \<inter> {4, 5}) \<and>
      (\<exists>rest. greedy_loop (build_graph 5 [10, 10, 10, 10, 10]) 1 {4, 5} [Some 2] =
                Some (Inr ([Some 2] @ Some (nodes (build_graph 5 [10, 10, 10, 10, 10]) ! i) # rest))) \<and>
      (\<forall>j < i. gain (build_graph 5 [10, 10, 10, 10, 10]) 1 {4, 5}
                  (nodes (build_graph 5 [10, 10, 10, 10, 10]) ! j)
                < gain (build_graph 5 [10, 10, 10, 10, 10]) 1 {4, 5}
                    (nodes (build_graph 5 [10, 10, 10, 10, 10]) ! i)))"
proof -
  have h1: "(0::int) \<le> 1" by simp
  have h2: "{4, 5 :: int} \<noteq> {}" by simp
  have h3: "{4, 5} \<subseteq> set (nodes (build_graph 5 [10, 10, 10, 10, 10]))" by code_simp
  have ev: "best_scan (build_graph 5 [10, 10, 10, 10, 10]) 1 {4, 5}
     (nodes (build_graph 5 [10, 10, 10, 10, 10])) (None, {}) = Inr (Some 4, {4, 5})"
    by code_simp
  have rd: "greedy_round (build_graph 5 [10, 10, 10, 10, 10]) 1 {4, 5} [Some 2] =
     Inr ({}, [Some 2, Some 4])"
    by code_simp
  have lp: "greedy_loop (build_graph 5 [10, 10, 10, 10, 10]) 1 {4, 5} [Some 2] =
     Some (Inr [Some 2, Some 4])"
    by code_simp
  from greedy_round_selects_first_maximum [OF h1 h2 h3, of "[Some 2]"]
  obtain i where "i < length (nodes (build_graph 5 [10, 10, 10, 10, 10]))"
    and "best_scan (build_graph 5 [10, 10, 10, 10, 10]) 1 {4, 5}
        (nodes (build_graph 5 [10, 10, 10, 10, 10])) (None, {}) =
        Inr (Some (nodes (build_graph 5 [10, 10, 10, 10, 10]) ! i),
             reach (build_graph 5 [10, 10, 10, 10, 10])
               (nodes (build_graph 5 [10, 10, 10, 10, 10]) ! i) 1 \<inter> {4, 5})"
    and "\<exists>rest. greedy_loop (build_graph 5 [10, 10, 10, 10, 10]) 1 {4, 5} [Some 2] =
                Some (Inr ([Some 2] @ Some (nodes (build_graph 5 [10, 10, 10, 10, 10]) ! i) # rest))"
    and "\<forall>j < i. gain (build_graph 5 [10, 10, 10, 10, 10]) 1 {4, 5}
                  (nodes (build_graph 5 [10, 10, 10, 10, 10]) ! j)
                < gain (build_graph 5 [10, 10, 10, 10, 10]) 1 {4, 5}
                    (nodes (build_graph 5 [10, 10, 10, 10, 10]) ! i)"
    by blast
  with h1 h2 h3 ev rd lp show ?thesis by blast
qed

text \<open>
  C2.  For every graph, connected or not, and every radius that is not negative, the
  placement returns, the loop over its centers returns, and no node of the graph is
  outside the union of the centers' reaches: the final uncovered set is empty.
\<close>

theorem final_uncovered_is_empty:
  assumes "0 \<le> X"
  shows "\<exists>centers coverage_map all_covered.
           greedy_center_placement G X = Some (Inr centers) \<and>
           coverage_groups G X centers (Map.empty, {}) = Inr (coverage_map, all_covered) \<and>
           set (nodes G) - all_covered = {}"
proof -
  from greedy_center_placement_total [OF assms, of G]
  obtain vs where run: "greedy_center_placement G X = Some (Inr (map Some vs))"
    and nodes: "set vs \<subseteq> set (nodes G)"
    and cov: "set (nodes G) \<subseteq> (\<Union>v \<in> set vs. reach G v X)"
    by blast
  have "coverage_groups G X (map Some vs) (Map.empty, {}) =
          Inr (\<lambda>c. if c \<in> set vs then Some (sorted_list_of_set (reach G c X)) else None,
               {} \<union> (\<Union>v \<in> set vs. reach G v X))"
    by (rule coverage_groups_nodes [OF nodes])
  moreover have "set (nodes G) - ({} \<union> (\<Union>v \<in> set vs. reach G v X)) = {}"
    using cov by blast
  ultimately show ?thesis using run by blast
qed

theorem final_uncovered_is_empty_witness:
  "(0::int) \<le> 1 \<and>
   (\<exists>centers coverage_map all_covered.
      greedy_center_placement (build_graph 5 [10, 10, 10, 10, 10]) 1 = Some (Inr centers) \<and>
      coverage_groups (build_graph 5 [10, 10, 10, 10, 10]) 1 centers (Map.empty, {}) =
        Inr (coverage_map, all_covered) \<and>
      set (nodes (build_graph 5 [10, 10, 10, 10, 10])) - all_covered = {})"
proof -
  have h: "(0::int) \<le> 1" by simp
  from final_uncovered_is_empty [OF h, of "build_graph 5 [10, 10, 10, 10, 10]"] h
  show ?thesis by blast
qed

text \<open>
  C3.  For every graph and every radius that is not negative the placement loop
  terminates.  Every round, entered with a non-empty uncovered set of nodes, selects a
  node and removes at least one element from the uncovered set.  Each round appends
  one center, so the number of rounds is the length of the returned list, and that is
  at most the number of nodes.
\<close>

theorem greedy_placement_terminates:
  assumes "0 \<le> X"
  shows "(\<forall>uncovered. uncovered \<noteq> {} \<and> uncovered \<subseteq> set (nodes G) \<longrightarrow>
            (\<exists>best_node best_cover.
               best_scan G X uncovered (nodes G) (None, {}) = Inr (Some best_node, best_cover) \<and>
               card (uncovered - best_cover) < card uncovered)) \<and>
         (\<exists>centers. greedy_center_placement G X = Some (Inr centers) \<and>
            length centers \<le> card (set (nodes G)) \<and>
            card (set (nodes G)) \<le> length (nodes G))"
proof (intro conjI allI impI)
  fix uncovered
  assume u: "uncovered \<noteq> {} \<and> uncovered \<subseteq> set (nodes G)"
  then have fin: "finite uncovered" by (meson finite_subset List.finite_set)
  from u best_scan_select [OF assms, of uncovered G]
  obtain i where sel: "best_scan G X uncovered (nodes G) (None, {}) =
                         Inr (Some (nodes G ! i), reach G (nodes G ! i) X \<inter> uncovered)"
    and pos: "0 < gain G X uncovered (nodes G ! i)"
    by blast
  have "reach G (nodes G ! i) X \<inter> uncovered \<noteq> {}" using pos by (auto simp: gain_def)
  then have "uncovered - (reach G (nodes G ! i) X \<inter> uncovered) \<subset> uncovered" by blast
  then have "card (uncovered - (reach G (nodes G ! i) X \<inter> uncovered)) < card uncovered"
    using fin by (rule psubset_card_mono [rotated])
  with sel show "\<exists>best_node best_cover.
               best_scan G X uncovered (nodes G) (None, {}) = Inr (Some best_node, best_cover) \<and>
               card (uncovered - best_cover) < card uncovered"
    by blast
next
  from greedy_center_placement_total [OF assms, of G]
  obtain vs where "greedy_center_placement G X = Some (Inr (map Some vs))"
    and "length vs \<le> card (set (nodes G))"
    by blast
  moreover have "card (set (nodes G)) \<le> length (nodes G)" by (rule card_length)
  ultimately show "\<exists>centers. greedy_center_placement G X = Some (Inr centers) \<and>
            length centers \<le> card (set (nodes G)) \<and>
            card (set (nodes G)) \<le> length (nodes G)"
    by (intro exI [of _ "map Some vs"]) simp
qed

theorem greedy_placement_terminates_witness:
  "(0::int) \<le> 1 \<and>
   (\<exists>best_node best_cover.
      best_scan (build_graph 5 [10, 10, 10, 10, 10]) 1 {4, 5}
        (nodes (build_graph 5 [10, 10, 10, 10, 10])) (None, {}) = Inr (Some best_node, best_cover) \<and>
      card ({4, 5} - best_cover) < card {4, 5 :: int}) \<and>
   (\<exists>centers. greedy_center_placement (build_graph 5 [10, 10, 10, 10, 10]) 1 = Some (Inr centers) \<and>
      length centers \<le> card (set (nodes (build_graph 5 [10, 10, 10, 10, 10]))) \<and>
      card (set (nodes (build_graph 5 [10, 10, 10, 10, 10]))) \<le> 5)"
proof -
  have h: "(0::int) \<le> 1" by simp
  have u: "{4, 5 :: int} \<noteq> {} \<and> {4, 5} \<subseteq> set (nodes (build_graph 5 [10, 10, 10, 10, 10]))"
    by code_simp
  have n: "length (nodes (build_graph 5 [10, 10, 10, 10, 10])) = 5" by code_simp
  note t = greedy_placement_terminates [OF h, of "build_graph 5 [10, 10, 10, 10, 10]"]
  from t have "\<forall>uncovered. uncovered \<noteq> {} \<and>
          uncovered \<subseteq> set (nodes (build_graph 5 [10, 10, 10, 10, 10])) \<longrightarrow>
            (\<exists>best_node best_cover.
               best_scan (build_graph 5 [10, 10, 10, 10, 10]) 1 uncovered
                 (nodes (build_graph 5 [10, 10, 10, 10, 10])) (None, {}) =
                 Inr (Some best_node, best_cover) \<and>
               card (uncovered - best_cover) < card uncovered)"
    by (rule conjunct1)
  then have round: "\<exists>best_node best_cover.
      best_scan (build_graph 5 [10, 10, 10, 10, 10]) 1 {4, 5}
        (nodes (build_graph 5 [10, 10, 10, 10, 10])) (None, {}) = Inr (Some best_node, best_cover) \<and>
      card ({4, 5} - best_cover) < card {4, 5 :: int}"
    by (rule allE [where x = "{4, 5}"]) (rule mp, assumption, rule u)
  from t have "\<exists>centers.
      greedy_center_placement (build_graph 5 [10, 10, 10, 10, 10]) 1 = Some (Inr centers) \<and>
      length centers \<le> card (set (nodes (build_graph 5 [10, 10, 10, 10, 10]))) \<and>
      card (set (nodes (build_graph 5 [10, 10, 10, 10, 10])))
        \<le> length (nodes (build_graph 5 [10, 10, 10, 10, 10]))"
    by (rule conjunct2)
  then have "\<exists>centers.
      greedy_center_placement (build_graph 5 [10, 10, 10, 10, 10]) 1 = Some (Inr centers) \<and>
      length centers \<le> card (set (nodes (build_graph 5 [10, 10, 10, 10, 10]))) \<and>
      card (set (nodes (build_graph 5 [10, 10, 10, 10, 10]))) \<le> 5"
    unfolding n .
  with h round show ?thesis by blast
qed

text \<open>
  C4.  For every center that the placement chose (radius not negative), the entry of
  the coverage dictionary is the whole set that \<^verbatim>\<open>covered_nodes\<close> returns for that center
  on the graph, with nothing taken away for nodes that other centers cover, as a list
  in strictly ascending order.
\<close>

theorem coverage_map_is_full_reach_sorted:
  assumes "0 \<le> X"
  shows "\<exists>centers coverage_map all_covered.
           greedy_center_placement G X = Some (Inr centers) \<and>
           coverage_groups G X centers (Map.empty, {}) = Inr (coverage_map, all_covered) \<and>
           (\<forall>c \<in> set centers. \<exists>v full shown.
              c = Some v \<and> covered_nodes G v X = Inr full \<and>
              coverage_map v = Some shown \<and> set shown = full \<and>
              sorted shown \<and> distinct shown)"
proof -
  from greedy_center_placement_total [OF assms, of G]
  obtain vs where run: "greedy_center_placement G X = Some (Inr (map Some vs))"
    and nodes: "set vs \<subseteq> set (nodes G)"
    by blast
  let ?m = "\<lambda>c. if c \<in> set vs then Some (sorted_list_of_set (reach G c X)) else None"
  have groups: "coverage_groups G X (map Some vs) (Map.empty, {}) =
          Inr (?m, {} \<union> (\<Union>v \<in> set vs. reach G v X))"
    by (rule coverage_groups_nodes [OF nodes])
  have "\<forall>c \<in> set (map Some vs). \<exists>v full shown.
              c = Some v \<and> covered_nodes G v X = Inr full \<and>
              ?m v = Some shown \<and> set shown = full \<and> sorted shown \<and> distinct shown"
  proof
    fix c assume "c \<in> set (map Some vs)"
    then obtain v where v: "c = Some v" "v \<in> set vs" by auto
    with nodes have "covered_nodes G v X = Inr (reach G v X)" by (auto simp: covered_nodes_node)
    moreover have "?m v = Some (sorted_list_of_set (reach G v X))" using v by simp
    moreover have "set (sorted_list_of_set (reach G v X)) = reach G v X"
      by (simp add: finite_reach)
    ultimately show "\<exists>v full shown.
              c = Some v \<and> covered_nodes G v X = Inr full \<and>
              ?m v = Some shown \<and> set shown = full \<and> sorted shown \<and> distinct shown"
      using v by (metis sorted_sorted_list_of_set distinct_sorted_list_of_set)
  qed
  with run groups show ?thesis by blast
qed

theorem coverage_map_is_full_reach_sorted_witness:
  "(0::int) \<le> 1 \<and>
   (\<exists>centers coverage_map all_covered.
      greedy_center_placement (build_graph 5 [10, 10, 10, 10, 10]) 1 = Some (Inr centers) \<and>
      coverage_groups (build_graph 5 [10, 10, 10, 10, 10]) 1 centers (Map.empty, {}) =
        Inr (coverage_map, all_covered) \<and>
      (\<exists>v full shown. Some v \<in> set centers \<and>
         covered_nodes (build_graph 5 [10, 10, 10, 10, 10]) v 1 = Inr full \<and>
         coverage_map v = Some shown \<and> set shown = full \<and> sorted shown \<and> distinct shown))"
proof -
  have h: "(0::int) \<le> 1" by simp
  have run: "greedy_center_placement (build_graph 5 [10, 10, 10, 10, 10]) 1 =
               Some (Inr [Some 2, Some 4])"
    by code_simp
  from coverage_map_is_full_reach_sorted [OF h, of "build_graph 5 [10, 10, 10, 10, 10]"]
  obtain centers coverage_map all_covered where
    c: "greedy_center_placement (build_graph 5 [10, 10, 10, 10, 10]) 1 = Some (Inr centers)"
      "coverage_groups (build_graph 5 [10, 10, 10, 10, 10]) 1 centers (Map.empty, {}) =
         Inr (coverage_map, all_covered)"
      "\<forall>c \<in> set centers. \<exists>v full shown.
              c = Some v \<and> covered_nodes (build_graph 5 [10, 10, 10, 10, 10]) v 1 = Inr full \<and>
              coverage_map v = Some shown \<and> set shown = full \<and> sorted shown \<and> distinct shown"
    by blast
  from c(1) run have "centers = [Some 2, Some 4]" by simp
  then have "Some 2 \<in> set centers" by simp
  with c(3) have "\<exists>v full shown. Some v \<in> set centers \<and>
         covered_nodes (build_graph 5 [10, 10, 10, 10, 10]) v 1 = Inr full \<and>
         coverage_map v = Some shown \<and> set shown = full \<and> sorted shown \<and> distinct shown"
    by blast
  with h c(1,2) show ?thesis by blast
qed

text \<open>
  C5, the claim as written fails.  It says that a negative radius is rejected with an
  error before any computation.  The program has no such check: on the chain of 2
  nodes with radius -1 the first round runs its scan and selects no node, and the
  call has no result, neither a list of centers nor an error.
\<close>

theorem negative_radius_is_not_rejected_counterexample:
  "greedy_center_placement (build_graph 2 [10, 10]) (- 1) = None \<and>
   best_scan (build_graph 2 [10, 10]) (- 1) (set (nodes (build_graph 2 [10, 10])))
     (nodes (build_graph 2 [10, 10])) (None, {}) = Inr (None, {})"
proof
  have "nodes (build_graph 2 [10, 10]) \<noteq> []" by code_simp
  then show "greedy_center_placement (build_graph 2 [10, 10]) (- 1) = None"
    by (intro greedy_center_placement_negative) simp_all
next
  show "best_scan (build_graph 2 [10, 10]) (- 1) (set (nodes (build_graph 2 [10, 10])))
     (nodes (build_graph 2 [10, 10])) (None, {}) = Inr (None, {})"
    by code_simp
qed

text \<open>
  C5, as amended.  The placement has no check of the radius and no error for it: with
  a negative radius the computation begins.  For every graph and every negative
  radius, \<^verbatim>\<open>covered_nodes\<close> returns the empty set for every node of the graph, the
  scan of a round ends without an error and selects no node, and the round appends
  \<^verbatim>\<open>None\<close> to the centers and leaves the uncovered set as it was.  On the graph
  without nodes the placement returns the empty list.
\<close>

theorem negative_radius_round_selects_no_node:
  assumes "X < 0"
  shows "(\<forall>v \<in> set (nodes G). covered_nodes G v X = Inr {}) \<and>
         best_scan G X uncovered (nodes G) (None, {}) = Inr (None, {}) \<and>
         greedy_round G X uncovered centers = Inr (uncovered, centers @ [None]) \<and>
         (nodes G = [] \<longrightarrow> greedy_center_placement G X = Some (Inr []))"
proof (intro conjI ballI impI)
  fix v assume "v \<in> set (nodes G)"
  then show "covered_nodes G v X = Inr {}"
    using assms by (simp add: covered_nodes_node reach_negative)
next
  have "\<forall>v \<in> set (nodes G). gain G X uncovered v = 0"
    using assms by (simp add: gain_def reach_negative)
  then show "best_scan G X uncovered (nodes G) (None, {}) = Inr (None, {})"
    by (intro best_scan_none) simp_all
next
  show "greedy_round G X uncovered centers = Inr (uncovered, centers @ [None])"
    using assms by (rule greedy_round_negative)
next
  assume "nodes G = []"
  then show "greedy_center_placement G X = Some (Inr [])"
    unfolding greedy_center_placement_def by (subst greedy_loop.simps) simp
qed

theorem negative_radius_round_selects_no_node_witness:
  "(- 2 :: int) < 0 \<and> 3 \<in> set (nodes (build_graph 4 [1, 2, 3, 4])) \<and>
   covered_nodes (build_graph 4 [1, 2, 3, 4]) 3 (- 2) = Inr {} \<and>
   best_scan (build_graph 4 [1, 2, 3, 4]) (- 2) {1, 2, 3, 4}
     (nodes (build_graph 4 [1, 2, 3, 4])) (None, {}) = Inr (None, {}) \<and>
   greedy_round (build_graph 4 [1, 2, 3, 4]) (- 2) {1, 2, 3, 4} [None] =
     Inr ({1, 2, 3, 4}, [None, None]) \<and>
   nodes empty_graph = [] \<and>
   greedy_center_placement empty_graph (- 2) = Some (Inr [])"
proof -
  have h: "(- 2 :: int) < 0" by simp
  have n: "3 \<in> set (nodes (build_graph 4 [1, 2, 3, 4]))" by code_simp
  have e: "nodes empty_graph = []" by code_simp
  from negative_radius_round_selects_no_node
         [OF h, of "build_graph 4 [1, 2, 3, 4]" "{1, 2, 3, 4}" "[None]"] n
  have "covered_nodes (build_graph 4 [1, 2, 3, 4]) 3 (- 2) = Inr {}"
    and "best_scan (build_graph 4 [1, 2, 3, 4]) (- 2) {1, 2, 3, 4}
           (nodes (build_graph 4 [1, 2, 3, 4])) (None, {}) = Inr (None, {})"
    and "greedy_round (build_graph 4 [1, 2, 3, 4]) (- 2) {1, 2, 3, 4} [None] =
           Inr ({1, 2, 3, 4}, [None, None])"
    by simp_all
  moreover from negative_radius_round_selects_no_node [OF h, of empty_graph "{}" "[]"] e
  have "greedy_center_placement empty_graph (- 2) = Some (Inr [])" by simp
  ultimately show ?thesis using h n e by blast
qed

text \<open>
  C6, a defect of the program.  The claim says that a total population of 0 is
  reported as a coverage of 0 percent.  The program divides by the total population
  without a guard.  With 2 locations, the populations 0, 0 and radius 1 the placement
  returns the center 1, the total is 0, the division raises \<^verbatim>\<open>ZeroDivisionError\<close>, and
  the handler around the computation catches it: the page shows the handler's
  message, which asks for comma-separated integers, and no summary.
\<close>

theorem zero_total_population_division_fault:
  "sum_list [0, 0 :: int] = 0 \<and>
   greedy_center_placement (build_graph 2 [0, 0]) 1 = Some (Inr [Some 1]) \<and>
   coverage_percent 0 (sum_list [0, 0]) = Inl ZeroDivisionError \<and>
   compute_centers 2 [0, 0] 1 = Some (Invalid_input ZeroDivisionError)"
proof -
  have p: "greedy_center_placement (build_graph 2 [0, 0]) 1 = Some (Inr [Some 1])"
    by code_simp
  have q: "coverage_percent 0 (sum_list [0, 0]) = Inl ZeroDivisionError"
    by (simp add: coverage_percent_def)
  have "(case compute_centers 2 [0, 0] 1 of
           Some (Invalid_input e) \<Rightarrow> (case e of ZeroDivisionError \<Rightarrow> True | _ \<Rightarrow> False)
         | _ \<Rightarrow> False)"
    by code_simp
  then have "compute_centers 2 [0, 0] 1 = Some (Invalid_input ZeroDivisionError)"
    by (simp split: option.splits outcome.splits error.splits)
  with p q show ?thesis by simp
qed

text \<open>
  C7.  In every run (as many population values as locations, radius not negative) the
  placement returns, the loop over the centers returns, the population lookups
  succeed, and the covered population plus the population of the nodes left
  uncovered is the sum of the population list, as integers.  This holds before the
  division, so also when the total is 0.
\<close>

theorem population_conservation:
  assumes "int (length population_list) = num_locations" and "0 \<le> X"
  shows "\<exists>centers coverage_map all_covered covered.
           greedy_center_placement (build_graph num_locations population_list) X =
             Some (Inr centers) \<and>
           coverage_groups (build_graph num_locations population_list) X centers (Map.empty, {}) =
             Inr (coverage_map, all_covered) \<and>
           covered_population (build_graph num_locations population_list) all_covered =
             Inr covered \<and>
           covered +
             (\<Sum>v \<in> set (nodes (build_graph num_locations population_list)) - all_covered.
                the (population (build_graph num_locations population_list) v)) =
             sum_list population_list"
proof -
  let ?G = "build_graph num_locations population_list"
  have wf: "well_formed ?G" by (rule well_formed_build_graph)
  have pl: "populations_listed ?G population_list"
    using assms(1) by (rule populations_listed_build_graph)
  from placement_and_groups [OF assms(2) wf]
  obtain vs m where run: "greedy_center_placement ?G X = Some (Inr (map Some vs))"
    and groups: "coverage_groups ?G X (map Some vs) (Map.empty, {}) = Inr (m, set (nodes ?G))"
    by blast
  have cov: "covered_population ?G (set (nodes ?G)) = Inr (sum_list population_list)"
    by (rule covered_population_all [OF wf pl])
  have "sum_list population_list +
          (\<Sum>v \<in> set (nodes ?G) - set (nodes ?G). the (population ?G v)) =
        sum_list population_list"
    by simp
  with run groups cov show ?thesis by blast
qed

theorem population_conservation_witness:
  "int (length [5, 0, 7 :: int]) = 3 \<and> (0::int) \<le> 1 \<and>
   (\<exists>centers coverage_map all_covered covered.
      greedy_center_placement (build_graph 3 [5, 0, 7]) 1 = Some (Inr centers) \<and>
      coverage_groups (build_graph 3 [5, 0, 7]) 1 centers (Map.empty, {}) =
        Inr (coverage_map, all_covered) \<and>
      covered_population (build_graph 3 [5, 0, 7]) all_covered = Inr covered \<and>
      covered +
        (\<Sum>v \<in> set (nodes (build_graph 3 [5, 0, 7])) - all_covered.
           the (population (build_graph 3 [5, 0, 7]) v)) = 12)"
proof -
  have h1: "int (length [5, 0, 7 :: int]) = 3" by simp
  have h2: "(0::int) \<le> 1" by simp
  have s: "sum_list [5, 0, 7 :: int] = 12" by simp
  from population_conservation [OF h1 h2] h1 h2 show ?thesis unfolding s by blast
qed

text \<open>
  A path of 9 nodes, 4 - 0 - 1 - 8 - 3 - 7 - 6 - 2 - 5, whose nodes were added in the
  order 0 to 8, so that the node order does not follow the shape of the graph.
\<close>

definition relabelled_path :: graph where
  "relabelled_path =
     fold (\<lambda>(u, v) G. add_edge G u v)
       [(0, 1), (0, 4), (1, 8), (2, 5), (2, 6), (3, 7), (3, 8), (6, 7)]
       (fold (\<lambda>i G. add_node G i 10) [0, 1, 2, 3, 4, 5, 6, 7, 8] empty_graph)"

text \<open>
  C8, the claim as written fails.  It says that for a fixed graph the number of centers
  never grows with the radius.  On the relabelled path the placement returns the two
  centers 1 and 2 with radius 2, and the three centers 3, 0 and 2 with radius 3.
\<close>

theorem more_centers_with_larger_radius_counterexample:
  "greedy_center_placement relabelled_path 2 = Some (Inr [Some 1, Some 2]) \<and>
   greedy_center_placement relabelled_path 3 = Some (Inr [Some 3, Some 0, Some 2]) \<and>
   (2::int) \<le> 3 \<and>
   \<not> length [Some (3::int), Some 0, Some 2] \<le> length [Some (1::int), Some 2]"
proof (intro conjI)
  show "greedy_center_placement relabelled_path 2 = Some (Inr [Some 1, Some 2])"
    by code_simp
  show "greedy_center_placement relabelled_path 3 = Some (Inr [Some 3, Some 0, Some 2])"
    by code_simp
qed simp_all

text \<open>
  C8, as amended.  On the graphs that the program builds, the chains with the nodes 1 to N
  in this order, the placement with a radius X that is not negative returns N divided
  by 2X + 1, rounded up, centers; so on them the number of centers does not grow with
  the radius.
\<close>

theorem chain_center_count_is_antitone:
  assumes "int (length population_list) = num_locations" and "0 \<le> X1" and "X1 \<le> X2"
  shows "\<exists>centers1 centers2.
           greedy_center_placement (build_graph num_locations population_list) X1 =
             Some (Inr centers1) \<and>
           greedy_center_placement (build_graph num_locations population_list) X2 =
             Some (Inr centers2) \<and>
           int (length centers1) = (num_locations + 2 * X1) div (2 * X1 + 1) \<and>
           int (length centers2) = (num_locations + 2 * X2) div (2 * X2 + 1) \<and>
           length centers2 \<le> length centers1"
proof -
  from assms(1) have n: "0 \<le> num_locations" by auto
  from assms(2,3) have X2: "0 \<le> X2" by simp
  from chain_placement_count [OF assms(2) n, of population_list]
  obtain vs1 where r1: "greedy_center_placement (build_graph num_locations population_list) X1 =
                          Some (Inr (map Some vs1))"
    and c1: "int (length vs1) = (num_locations + 2 * X1) div (2 * X1 + 1)"
    by blast
  from chain_placement_count [OF X2 n, of population_list]
  obtain vs2 where r2: "greedy_center_placement (build_graph num_locations population_list) X2 =
                          Some (Inr (map Some vs2))"
    and c2: "int (length vs2) = (num_locations + 2 * X2) div (2 * X2 + 1)"
    by blast
  from rounds_antimono [OF n assms(2,3)] c1 c2 have "length vs2 \<le> length vs1" by simp
  with r1 r2 c1 c2 show ?thesis
    by (intro exI [of _ "map Some vs1"] exI [of _ "map Some vs2"]) simp
qed

theorem chain_center_count_is_antitone_witness:
  "int (length [10, 10, 10, 10, 10 :: int]) = 5 \<and> (0::int) \<le> 1 \<and> (1::int) \<le> 2 \<and>
   (\<exists>centers1 centers2.
      greedy_center_placement (build_graph 5 [10, 10, 10, 10, 10]) 1 = Some (Inr centers1) \<and>
      greedy_center_placement (build_graph 5 [10, 10, 10, 10, 10]) 2 = Some (Inr centers2) \<and>
      int (length centers1) = 2 \<and> int (length centers2) = 1 \<and>
      length centers2 \<le> length centers1)"
proof -
  have h1: "int (length [10, 10, 10, 10, 10 :: int]) = 5" by simp
  have h2: "(0::int) \<le> 1" by simp
  have h3: "(1::int) \<le> 2" by simp
  have e1: "((5::int) + 2 * 1) div (2 * 1 + 1) = 2" by simp
  have e2: "((5::int) + 2 * 2) div (2 * 2 + 1) = 1" by simp
  from chain_center_count_is_antitone [OF h1 h2 h3] h1 h2 h3
  show ?thesis unfolding e1 e2 by blast
qed

text \<open>
  C9 (scenario A).  On the chain of 5 nodes, all of population 10, with radius 1 the
  placement returns exactly the two centers 2 and 4; their coverage lists are
  1, 2, 3 and 3, 4, 5, which together are all 5 nodes; nothing is left uncovered and
  the coverage is 100 percent.
\<close>

theorem scenario_A_chain_of_five:
  "(case compute_centers 5 [10, 10, 10, 10, 10] 1 of
      Some (Summary s) \<Rightarrow>
        centers_placed s = [Some 2, Some 4] \<and> length (centers_placed s) = 2 \<and>
        center_coverage_map s 2 = Some [1, 2, 3] \<and>
        center_coverage_map s 4 = Some [3, 4, 5] \<and>
        set [1, 2, 3] \<union> set [3, 4, 5] = set (nodes (build_graph 5 [10, 10, 10, 10, 10])) \<and>
        uncovered_nodes s = {} \<and>
        total_population s = 50 \<and> population_covered s = 50 \<and> percent s = 100
    | _ \<Rightarrow> False)"
  by code_simp

text \<open>
  C10.  For every well-formed graph that carries its population list, with a positive
  total population (so the graph has a node) and a radius that is not negative, the
  placement returns and the page shows the summary, in which the covered population
  is the total population, no node is uncovered, and the coverage is exactly 100
  percent.  The graphs of the program are of this kind.
\<close>

theorem coverage_is_always_full:
  assumes "well_formed G" and "populations_listed G population_list"
    and "0 \<le> X" and "0 < sum_list population_list"
  shows "\<exists>centers s.
           greedy_center_placement G X = Some (Inr centers) \<and>
           summarize G population_list X centers = Summary s \<and>
           percent s = 100 \<and> uncovered_nodes s = {} \<and>
           population_covered s = total_population s"
proof -
  from placement_and_groups [OF assms(3,1)]
  obtain vs m where run: "greedy_center_placement G X = Some (Inr (map Some vs))"
    and groups: "coverage_groups G X (map Some vs) (Map.empty, {}) = Inr (m, set (nodes G))"
    by blast
  from summarize_well_formed [OF assms(1,2) groups] assms(4)
  have "summarize G population_list X (map Some vs) =
          Summary \<lparr>centers_placed = map Some vs, center_coverage_map = m,
            uncovered_nodes = {}, total_population = sum_list population_list,
            population_covered = sum_list population_list, percent = 100\<rparr>"
    by simp
  with run show ?thesis by (intro exI [of _ "map Some vs"]) simp
qed

theorem coverage_is_always_full_witness:
  "well_formed (build_graph 3 [5, 0, 7]) \<and> populations_listed (build_graph 3 [5, 0, 7]) [5, 0, 7] \<and>
   (0::int) \<le> 1 \<and> (0::int) < sum_list [5, 0, 7] \<and>
   (\<exists>centers s.
      greedy_center_placement (build_graph 3 [5, 0, 7]) 1 = Some (Inr centers) \<and>
      summarize (build_graph 3 [5, 0, 7]) [5, 0, 7] 1 centers = Summary s \<and>
      percent s = 100 \<and> uncovered_nodes s = {} \<and>
      population_covered s = total_population s)"
proof -
  have h1: "well_formed (build_graph 3 [5, 0, 7])" by code_simp
  have h2: "populations_listed (build_graph 3 [5, 0, 7]) [5, 0, 7]" by code_simp
  have h3: "(0::int) \<le> 1" by simp
  have h4: "(0::int) < sum_list [5, 0, 7]" by simp
  from coverage_is_always_full [OF h1 h2 h3 h4] h1 h2 h3 h4 show ?thesis by blast
qed

end
